theory Spec2Isabelle
  imports Main
begin

section \<open>The polling controller of src/src/telegramPolling.js\<close>

text \<open>
  The class \<^verbatim>\<open>TelegramBotPolling\<close> is a controller object (\<^verbatim>\<open>this\<close>) whose methods
  build promise chains: one chain per call of \<^verbatim>\<open>_polling\<close>. A chain is suspended at the
  calls to the bot (\<^verbatim>\<open>bot.getUpdates\<close>, \<^verbatim>\<open>bot._request('setWebHook')\<close>) and resumed when
  the bot answers. The model is a state machine over a world that holds the controller,
  the store of promise chains (a chain's handle is its index), the \<^verbatim>\<open>finally\<close> callbacks
  that \<^verbatim>\<open>stop\<close> registers on a chain, the pending timers, and the trace of every call the
  controller makes on its collaborators. JavaScript numbers that hold identifiers,
  offsets and milliseconds are integers here. Callbacks that the source runs as
  microtasks right after the current call (the \<^verbatim>\<open>then\<close> of an already resolved promise)
  run inside the step that queues them. The update processor and the listeners of the
  bot are taken not to call back into the controller, and what the processor throws is
  an error object, on which the tag \<^verbatim>\<open>_processing\<close> can be written.
\<close>

subsection \<open>Data\<close>

record update =
  update_id :: int

record response =
  statusCode :: int

text \<open>An error object: \<^verbatim>\<open>err.response\<close> (absent for most errors), the tag
  \<^verbatim>\<open>err._processing\<close> and \<^verbatim>\<open>err.message\<close>.\<close>

record error =
  response :: "response option"
  processing :: bool
  message :: string

definition ANOTHER_WEB_HOOK_USED :: int where
  "ANOTHER_WEB_HOOK_USED = 409"

record params =
  offset :: int
  timeout :: int
  limit :: "int option"

text \<open>\<^verbatim>\<open>bot.options.polling\<close>: a boolean, or an object whose fields may be missing.\<close>

record params_options =
  offset_opt :: "int option"
  timeout_opt :: "int option"
  limit_opt :: "int option"

record polling_options =
  interval_opt :: "int option"
  params_opt :: "params_options option"
  timeout_deprecated :: "int option"

datatype polling_setting = Boolean bool | Object polling_options

text \<open>The fields of \<^verbatim>\<open>this\<close>; \<^verbatim>\<open>_lastRequest\<close> is the handle of a promise chain,
  \<^verbatim>\<open>_pollingTimeout\<close> the handle of a timer.\<close>

record polling =
  interval :: int
  params :: params
  lastUpdate :: nat
  lastRequest :: "nat option"
  abort :: bool
  pollingTimeout :: "nat option"
  isPollingActive :: bool

text \<open>The collaborators the controller calls: \<^verbatim>\<open>bot.options.badRejection\<close>, the number
  of listeners of \<^verbatim>\<open>polling_error\<close>, the update processor (\<open>Some err\<close> when it throws
  \<open>err\<close>) and the clock read by \<^verbatim>\<open>Date.now()\<close>.\<close>

record bot =
  badRejection :: bool
  polling_error_listeners :: nat
  processUpdate :: "update \<Rightarrow> error option"
  now :: nat

text \<open>What the controller does to its collaborators, in order. A call of the
  processor records the chain it belongs to and the value of \<^verbatim>\<open>params.offset\<close> read
  at the moment of the call.\<close>

datatype event =
    Emit_polling_started
  | Emit_polling_restart
  | Emit_polling_stopped
  | Emit_polling_error error
  | Console_polling_error error
  | Console_recovery_failed error
  | Emit_error_FatalError error
  | Call_getUpdates params
  | Call_setWebHook
  | Call_processUpdate nat update int
  | Call_cancel nat string

text \<open>Where a promise chain of \<^verbatim>\<open>_polling\<close> stands: waiting for the first fetch, for
  \<^verbatim>\<open>_unsetWebHook\<close>, for the retried fetch, for the recovery fetch of
  \<^verbatim>\<open>_handleProcessingError\<close> (which keeps the processing error), settled (its
  \<^verbatim>\<open>finally\<close> handler has run), or cancelled.\<close>

datatype phase = Fetching | Unsetting | Refetching | Recovering error | Settled | Cancelled

datatype reply = Resolve "update list" | Reject error

datatype settlement = Fulfilled "update list" | Rejected error

datatype outcome = Resolved | Settles_with nat

record world =
  poll :: polling
  promises :: "phase list"
  waiters :: "nat list"
  timers :: "(nat \<times> int) list"
  timer_count :: nat
  trace :: "event list"

record start_options =
  restart :: bool

record stop_options =
  cancel :: bool
  reason :: "string option"

datatype action =
    Start start_options
  | Stop stop_options
  | Respond nat reply
  | Fire nat

subsection \<open>Construction\<close>

definition constructor :: "polling_setting \<Rightarrow> polling" where
  "constructor setting =
     (let options = (case setting of
                       Boolean _ \<Rightarrow> \<lparr>interval_opt = None, params_opt = None, timeout_deprecated = None\<rparr>
                     | Object opts \<Rightarrow> opts);
          ps = (case params_opt options of
                  Some p \<Rightarrow> p
                | None \<Rightarrow> \<lparr>offset_opt = None, timeout_opt = None, limit_opt = None\<rparr>);
          timeout1 = (case timeout_opt ps of Some n \<Rightarrow> n | None \<Rightarrow> 10)
      in \<lparr>interval = (case interval_opt options of Some n \<Rightarrow> n | None \<Rightarrow> 300),
          params = \<lparr>offset = (case offset_opt ps of Some n \<Rightarrow> n | None \<Rightarrow> 0),
                    timeout = (case timeout_deprecated options of Some n \<Rightarrow> n | None \<Rightarrow> timeout1),
                    limit = limit_opt ps\<rparr>,
          lastUpdate = 0,
          lastRequest = None,
          abort = False,
          pollingTimeout = None,
          isPollingActive = False\<rparr>)"

definition new_world :: "polling_setting \<Rightarrow> world" where
  "new_world setting =
     \<lparr>poll = constructor setting, promises = [], waiters = [], timers = [],
      timer_count = 0, trace = []\<rparr>"

subsection \<open>Promises, timers and the trace\<close>

definition emit :: "event \<Rightarrow> world \<Rightarrow> world" where
  "emit e w = w\<lparr>trace := trace w @ [e]\<rparr>"

definition pending :: "phase \<Rightarrow> bool" where
  "pending ph = (case ph of Settled \<Rightarrow> False | Cancelled \<Rightarrow> False | _ \<Rightarrow> True)"

definition settled :: "nat \<Rightarrow> world \<Rightarrow> bool" where
  "settled r w = (r < length (promises w) \<and> promises w ! r = Settled)"

definition in_flight :: "nat \<Rightarrow> world \<Rightarrow> bool" where
  "in_flight r w = (r < length (promises w) \<and> pending (promises w ! r))"

definition set_phase :: "nat \<Rightarrow> phase \<Rightarrow> world \<Rightarrow> world" where
  "set_phase r ph w = w\<lparr>promises := (promises w)[r := ph]\<rparr>"

definition new_promise :: "world \<Rightarrow> nat \<times> world" where
  "new_promise w = (length (promises w), w\<lparr>promises := promises w @ [Fetching]\<rparr>)"

definition setTimeout :: "int \<Rightarrow> world \<Rightarrow> nat \<times> world" where
  "setTimeout delay w =
     (timer_count w,
      w\<lparr>timers := timers w @ [(timer_count w, delay)], timer_count := Suc (timer_count w)\<rparr>)"

definition clearTimeout :: "nat option \<Rightarrow> world \<Rightarrow> world" where
  "clearTimeout handle w =
     (case handle of
        None \<Rightarrow> w
      | Some h \<Rightarrow> w\<lparr>timers := filter (\<lambda>t. fst t \<noteq> h) (timers w)\<rparr>)"

text \<open>The number of live cycle chains: a chain is either a cycle in flight or a
  pending timer that will launch the next cycle.\<close>

definition chains :: "world \<Rightarrow> nat" where
  "chains w = length (filter pending (promises w)) + length (timers w)"

text \<open>The calls of the processor made on behalf of chain \<open>r\<close>.\<close>

definition processed_by :: "nat \<Rightarrow> world \<Rightarrow> event list" where
  "processed_by r w =
     filter (\<lambda>e. case e of Call_processUpdate r' _ _ \<Rightarrow> r' = r | _ \<Rightarrow> False) (trace w)"

subsection \<open>The private methods\<close>

text \<open>\<^verbatim>\<open>_error\<close>: to the console when nobody listens to \<^verbatim>\<open>polling_error\<close>, to the
  listeners otherwise.\<close>

definition error_report :: "bot \<Rightarrow> error \<Rightarrow> world \<Rightarrow> world" where
  "error_report b err w =
     (if polling_error_listeners b = 0 then emit (Console_polling_error err) w
      else emit (Emit_polling_error err) w)"

text \<open>\<^verbatim>\<open>_unsetWebHook\<close>: the request \<^verbatim>\<open>bot._request('setWebHook')\<close>.\<close>

definition unsetWebHook :: "world \<Rightarrow> world" where
  "unsetWebHook w = emit Call_setWebHook w"

definition webhook_conflict :: "error \<Rightarrow> bool" where
  "webhook_conflict err =
     (case response err of
        None \<Rightarrow> False
      | Some resp \<Rightarrow> statusCode resp = ANOTHER_WEB_HOOK_USED)"

text \<open>\<^verbatim>\<open>_getUpdates\<close>, the call: \<^verbatim>\<open>bot.getUpdates(this.options.params)\<close>.\<close>

definition getUpdates_call :: "world \<Rightarrow> world" where
  "getUpdates_call w = emit (Call_getUpdates (params (poll w))) w"

text \<open>\<^verbatim>\<open>_getUpdates\<close>, its promise: what a reply does to it in each of its three
  phases. \<open>Inl\<close> is the phase it waits in next, \<open>Inr\<close> how it settles. The \<^verbatim>\<open>catch\<close>
  handler answers a webhook conflict of the first fetch by \<^verbatim>\<open>_unsetWebHook\<close>, then, once
  that is resolved, by a second \<^verbatim>\<open>bot.getUpdates\<close>; it rethrows every other error.\<close>

definition getUpdates_reply :: "phase \<Rightarrow> reply \<Rightarrow> world \<Rightarrow> (phase + settlement) \<times> world" where
  "getUpdates_reply ph rep w =
     (case ph of
        Fetching \<Rightarrow>
          (case rep of
             Resolve updates \<Rightarrow> (Inr (Fulfilled updates), w)
           | Reject err \<Rightarrow>
               if webhook_conflict err then (Inl Unsetting, unsetWebHook w)
               else (Inr (Rejected err), w))
      | Unsetting \<Rightarrow>
          (case rep of
             Resolve _ \<Rightarrow> (Inl Refetching, getUpdates_call w)
           | Reject err \<Rightarrow> (Inr (Rejected err), w))
      | _ \<Rightarrow>
          (case rep of
             Resolve updates \<Rightarrow> (Inr (Fulfilled updates), w)
           | Reject err \<Rightarrow> (Inr (Rejected err), w)))"

text \<open>The body of \<^verbatim>\<open>updates.forEach\<close> in \<^verbatim>\<open>_polling\<close>: the offset is written first, then
  the processor is called; an error it throws is tagged and thrown on, which ends the
  loop.\<close>

fun forEach_update :: "bot \<Rightarrow> nat \<Rightarrow> update list \<Rightarrow> world \<Rightarrow> error option \<times> world" where
  "forEach_update b r [] w = (None, w)"
| "forEach_update b r (u # us) w =
     (let w1 = w\<lparr>poll := (poll w)\<lparr>params := (params (poll w))\<lparr>offset := update_id u + 1\<rparr>\<rparr>\<rparr>;
          w2 = emit (Call_processUpdate r u (offset (params (poll w1)))) w1
      in case processUpdate b u of
           Some err \<Rightarrow> (Some (err\<lparr>processing := True\<rparr>), w2)
         | None \<Rightarrow> forEach_update b r us w2)"

text \<open>The \<^verbatim>\<open>then\<close> handler of \<^verbatim>\<open>_polling\<close>.\<close>

definition polling_then :: "bot \<Rightarrow> nat \<Rightarrow> update list \<Rightarrow> world \<Rightarrow> error option \<times> world" where
  "polling_then b r updates w =
     forEach_update b r updates (w\<lparr>poll := (poll w)\<lparr>lastUpdate := now b\<rparr>\<rparr>)"

text \<open>\<^verbatim>\<open>_handleProcessingError\<close>: \<open>None\<close> when it returns at once, \<open>Some\<close> of the phase
  in which its promise waits for the recovery fetch.\<close>

definition handleProcessingError :: "bot \<Rightarrow> error \<Rightarrow> world \<Rightarrow> phase option \<times> world" where
  "handleProcessingError b err w =
     (if \<not> badRejection b then (None, error_report b err w)
      else (Some (Recovering err),
            emit (Call_getUpdates \<lparr>offset = offset (params (poll w)), timeout = 0, limit = Some 1\<rparr>) w))"

text \<open>The two handlers on the recovery fetch.\<close>

definition handleProcessingError_reply :: "bot \<Rightarrow> error \<Rightarrow> reply \<Rightarrow> world \<Rightarrow> world" where
  "handleProcessingError_reply b err rep w =
     (case rep of
        Resolve _ \<Rightarrow> error_report b err w
      | Reject requestErr \<Rightarrow>
          emit (Emit_error_FatalError err) (emit (Console_recovery_failed requestErr) w))"

text \<open>The \<^verbatim>\<open>catch\<close> handler of \<^verbatim>\<open>_polling\<close>.\<close>

definition polling_catch :: "bot \<Rightarrow> error \<Rightarrow> world \<Rightarrow> phase option \<times> world" where
  "polling_catch b err w =
     (if \<not> processing err then (None, error_report b err w)
      else handleProcessingError b (err\<lparr>processing := False\<rparr>) w)"

text \<open>The \<^verbatim>\<open>finally\<close> handler of \<^verbatim>\<open>_polling\<close>.\<close>

definition polling_finally :: "world \<Rightarrow> world" where
  "polling_finally w =
     (if abort (poll w) then w
      else (let (h, w1) = setTimeout (interval (poll w)) w
            in w1\<lparr>poll := (poll w1)\<lparr>pollingTimeout := Some h\<rparr>\<rparr>))"

text \<open>The callback that \<^verbatim>\<open>stop\<close> registers with \<^verbatim>\<open>lastRequest.finally\<close>.\<close>

definition stop_finally :: "world \<Rightarrow> world" where
  "stop_finally w =
     emit Emit_polling_stopped (w\<lparr>poll := (poll w)\<lparr>abort := False, isPollingActive := False\<rparr>\<rparr>)"

text \<open>A chain settles: its \<^verbatim>\<open>finally\<close> handler runs, then the callbacks registered on
  it, in the order of registration.\<close>

definition settle :: "nat \<Rightarrow> world \<Rightarrow> world" where
  "settle r w =
     (let w1 = set_phase r Settled (polling_finally w);
          w2 = w1\<lparr>waiters := filter (\<lambda>x. x \<noteq> r) (waiters w1)\<rparr>
      in fold (\<lambda>x. if x = r then stop_finally else id) (waiters w1) w2)"

text \<open>After the \<^verbatim>\<open>catch\<close> stage: the chain settles, or waits for the recovery fetch.\<close>

definition after_catch :: "nat \<Rightarrow> phase option \<times> world \<Rightarrow> world" where
  "after_catch r res =
     (case fst res of
        None \<Rightarrow> settle r (snd res)
      | Some ph \<Rightarrow> set_phase r ph (snd res))"

text \<open>A reply of the bot reaches chain \<open>r\<close>. A settled or cancelled chain ignores it.\<close>

definition respond :: "bot \<Rightarrow> nat \<Rightarrow> reply \<Rightarrow> world \<Rightarrow> world" where
  "respond b r rep w =
     (if \<not> in_flight r w then w
      else (case promises w ! r of
              Recovering err \<Rightarrow> settle r (handleProcessingError_reply b err rep w)
            | ph \<Rightarrow>
               (case getUpdates_reply ph rep w of
                  (Inl ph', w1) \<Rightarrow> set_phase r ph' w1
                | (Inr (Rejected err), w1) \<Rightarrow> after_catch r (polling_catch b err w1)
                | (Inr (Fulfilled updates), w1) \<Rightarrow>
                    (case polling_then b r updates w1 of
                       (None, w2) \<Rightarrow> settle r w2
                     | (Some err, w2) \<Rightarrow> after_catch r (polling_catch b err w2)))))"

text \<open>\<^verbatim>\<open>_polling\<close>, the call: a new chain starts with the first fetch and becomes
  \<^verbatim>\<open>_lastRequest\<close>.\<close>

definition polling_call :: "world \<Rightarrow> nat \<times> world" where
  "polling_call w =
     (let (r, w1) = new_promise (getUpdates_call w)
      in (r, w1\<lparr>poll := (poll w1)\<lparr>lastRequest := Some r\<rparr>\<rparr>))"

text \<open>A timer set by the \<^verbatim>\<open>finally\<close> handler fires: \<^verbatim>\<open>() => this._polling()\<close>.\<close>

definition fire :: "nat \<Rightarrow> world \<Rightarrow> world" where
  "fire h w =
     (if h \<in> fst ` set (timers w)
      then snd (polling_call (w\<lparr>timers := filter (\<lambda>t. fst t \<noteq> h) (timers w)\<rparr>))
      else w)"

subsection \<open>The public methods\<close>

text \<open>Modelled from the spec: the method \<^verbatim>\<open>cancel\<close> of the promise that \<^verbatim>\<open>_polling\<close>
  builds on \<^verbatim>\<open>bot.getUpdates\<close>. The promise class comes with the bot (src/telegram.js),
  which is not among the sources. The specification says of it: the cancellation
  propagates to the underlying fetch, and the eventual resolution of the cancelled
  operation has no observable effect (no offset mutation, no processor invocation, no
  reschedule). A chain that is already settled is not changed.\<close>

definition promise_cancel :: "nat \<Rightarrow> string \<Rightarrow> world \<Rightarrow> world" where
  "promise_cancel r why w =
     emit (Call_cancel r why) (if in_flight r w then set_phase r Cancelled w else w)"

text \<open>\<^verbatim>\<open>lastRequest.finally(callback)\<close> in \<^verbatim>\<open>stop\<close>: on a settled chain the callback runs
  at once, on any other it waits.\<close>

definition promise_finally :: "nat \<Rightarrow> world \<Rightarrow> world" where
  "promise_finally r w =
     (if settled r w then stop_finally w else w\<lparr>waiters := waiters w @ [r]\<rparr>)"

definition stop :: "stop_options \<Rightarrow> world \<Rightarrow> outcome \<times> world" where
  "stop options w =
     (case lastRequest (poll w) of
        None \<Rightarrow> (Resolved, w)
      | Some request \<Rightarrow>
          (let w1 = w\<lparr>poll := (poll w)\<lparr>lastRequest := None\<rparr>\<rparr>;
               w2 = clearTimeout (pollingTimeout (poll w1)) w1
           in if cancel options then
                (let why = (case reason options of
                              None \<Rightarrow> ''Polling stop''
                            | Some s \<Rightarrow> if s = [] then ''Polling stop'' else s);
                     w3 = emit Emit_polling_stopped (promise_cancel request why w2)
                 in (Resolved, w3\<lparr>poll := (poll w3)\<lparr>isPollingActive := False\<rparr>\<rparr>))
              else (Settles_with request,
                    promise_finally request (w2\<lparr>poll := (poll w2)\<lparr>abort := True\<rparr>\<rparr>))))"

definition start :: "start_options \<Rightarrow> world \<Rightarrow> outcome \<times> world" where
  "start options w =
     (if isPollingActive (poll w) then
        (if \<not> restart options then (Resolved, w)
         else (let w1 = emit Emit_polling_restart w;
                   w2 = snd (stop \<lparr>cancel = True, reason = Some ''Polling restart''\<rparr> w1);
                   (r, w3) = polling_call w2
               in (Settles_with r, w3)))
      else (let w1 = emit Emit_polling_started w;
                w2 = w1\<lparr>poll := (poll w1)\<lparr>isPollingActive := True\<rparr>\<rparr>;
                (r, w3) = polling_call w2
            in (Settles_with r, w3)))"

definition isPolling :: "world \<Rightarrow> bool" where
  "isPolling w = (lastRequest (poll w) \<noteq> None)"

subsection \<open>Runs\<close>

definition step :: "bot \<Rightarrow> action \<Rightarrow> world \<Rightarrow> world" where
  "step b a w =
     (case a of
        Start options \<Rightarrow> snd (start options w)
      | Stop options \<Rightarrow> snd (stop options w)
      | Respond r rep \<Rightarrow> respond b r rep w
      | Fire h \<Rightarrow> fire h w)"

definition run :: "(bot \<times> action) list \<Rightarrow> world \<Rightarrow> world" where
  "run acts w = fold (\<lambda>ba. step (fst ba) (snd ba)) acts w"

text \<open>The replies of the bot to one chain, delivered in order.\<close>

definition replies :: "bot \<Rightarrow> nat \<Rightarrow> reply list \<Rightarrow> world \<Rightarrow> world" where
  "replies b r reps w = fold (respond b r) reps w"

subsection \<open>Notions used in the statements\<close>

text \<open>Chain \<open>r\<close> waits for the reply to a fetch of a batch: the first fetch of the
  cycle, or the one retried after a webhook conflict.\<close>

definition awaits_fetch :: "nat \<Rightarrow> world \<Rightarrow> bool" where
  "awaits_fetch r w =
     (r < length (promises w) \<and> (promises w ! r = Fetching \<or> promises w ! r = Refetching))"

text \<open>The one event by which \<^verbatim>\<open>_error\<close> reports an error.\<close>

definition reported :: "bot \<Rightarrow> error \<Rightarrow> event" where
  "reported b err =
     (if polling_error_listeners b = 0 then Console_polling_error err
      else Emit_polling_error err)"

text \<open>The notifications of the \<^verbatim>\<open>stop\<close> callbacks that wait for chain \<open>r\<close>.\<close>

definition notified :: "nat \<Rightarrow> world \<Rightarrow> event list" where
  "notified r w = replicate (count_list (waiters w) r) Emit_polling_stopped"

definition stopped_count :: "world \<Rightarrow> nat" where
  "stopped_count w = count_list (trace w) Emit_polling_stopped"

text \<open>The processor calls of a batch, as the loop makes them.\<close>

definition processor_calls :: "nat \<Rightarrow> update list \<Rightarrow> event list" where
  "processor_calls r us = map (\<lambda>u. Call_processUpdate r u (update_id u + 1)) us"

text \<open>What a cycle leaves alone before it settles: \<open>w1\<close> differs from \<open>w\<close> only in
  the offset, the time of the last update and the trace, to which no stop notification
  was added.\<close>

definition cycle_work :: "world \<Rightarrow> world \<Rightarrow> bool" where
  "cycle_work w w1 =
     (promises w1 = promises w \<and> waiters w1 = waiters w \<and> timers w1 = timers w \<and>
      timer_count w1 = timer_count w \<and>
      abort (poll w1) = abort (poll w) \<and>
      isPollingActive (poll w1) = isPollingActive (poll w) \<and>
      lastRequest (poll w1) = lastRequest (poll w) \<and>
      pollingTimeout (poll w1) = pollingTimeout (poll w) \<and>
      interval (poll w1) = interval (poll w) \<and>
      stopped_count w1 = stopped_count w)"

text \<open>The handles are sound: every chain on which a \<^verbatim>\<open>stop\<close> callback waits exists,
  and the chain held in \<^verbatim>\<open>_lastRequest\<close> exists and has no callback waiting on it.\<close>

definition handles_sound :: "world \<Rightarrow> bool" where
  "handles_sound w =
     (list_all (\<lambda>q. q < length (promises w)) (waiters w) \<and>
      (case lastRequest (poll w) of
         None \<Rightarrow> True
       | Some r \<Rightarrow> r < length (promises w) \<and> r \<notin> set (waiters w)))"

text \<open>The number of replies a chain can still wait for.\<close>

definition replies_left :: "phase \<Rightarrow> nat" where
  "replies_left ph =
     (case ph of
        Fetching \<Rightarrow> 4
      | Unsetting \<Rightarrow> 3
      | Refetching \<Rightarrow> 2
      | Recovering _ \<Rightarrow> 1
      | _ \<Rightarrow> 0)"

text \<open>An action that is neither a stop nor a restart.\<close>

definition plain :: "action \<Rightarrow> bool" where
  "plain a = (case a of Start options \<Rightarrow> \<not> restart options | Stop _ \<Rightarrow> False | _ \<Rightarrow> True)"

text \<open>An event that comes from outside: a reply of the bot or a timer that fires,
  not a call of \<^verbatim>\<open>start\<close> or \<^verbatim>\<open>stop\<close>.\<close>

definition external :: "action \<Rightarrow> bool" where
  "external a = (case a of Respond _ _ \<Rightarrow> True | Fire _ \<Rightarrow> True | _ \<Rightarrow> False)"

text \<open>A \<^verbatim>\<open>stop\<close> without cancel waits for chain \<open>r\<close>: the cycle is in flight, the abort
  flag is set, the callback of the stop is the only one registered, the active flag is
  \<open>a\<close> and \<open>n\<close> stop notifications were made so far.\<close>

definition stop_waits :: "nat \<Rightarrow> bool \<Rightarrow> nat \<Rightarrow> world \<Rightarrow> bool" where
  "stop_waits r a n w =
     (in_flight r w \<and> abort (poll w) \<and> waiters w = [r] \<and>
      isPollingActive (poll w) = a \<and> stopped_count w = n)"

text \<open>The stop is through: the cycle of chain \<open>r\<close> is over, the abort flag is clear, the
  controller is inactive, no callback waits and one more notification was made.\<close>

definition stop_done :: "nat \<Rightarrow> nat \<Rightarrow> world \<Rightarrow> bool" where
  "stop_done r n w =
     (settled r w \<and> \<not> abort (poll w) \<and> waiters w = [] \<and>
      \<not> isPollingActive (poll w) \<and> stopped_count w = Suc n)"

text \<open>A controller that no stop has touched: no abort is requested, no callback
  waits, and there is one chain when the controller is active and none when it is not.\<close>

definition undisturbed :: "world \<Rightarrow> bool" where
  "undisturbed w =
     (\<not> abort (poll w) \<and> waiters w = [] \<and>
      chains w = (if isPollingActive (poll w) then 1 else 0))"

subsection \<open>Concrete collaborators and worlds\<close>

definition boom :: error where
  "boom = \<lparr>response = None, processing = False, message = ''boom''\<rparr>"

definition conflict :: error where
  "conflict = \<lparr>response = Some \<lparr>statusCode = 409\<rparr>, processing = False, message = ''Conflict''\<rparr>"

definition unreachable :: error where
  "unreachable = \<lparr>response = None, processing = False, message = ''ECONNRESET''\<rparr>"

definition accepting :: "update \<Rightarrow> error option" where
  "accepting u = None"

definition rejecting :: "update \<Rightarrow> error option" where
  "rejecting u = Some boom"

definition quiet_bot :: bot where
  "quiet_bot = \<lparr>badRejection = False, polling_error_listeners = 0,
                 processUpdate = accepting, now = 1000\<rparr>"

definition failing_bot :: bot where
  "failing_bot = \<lparr>badRejection = False, polling_error_listeners = 1,
                   processUpdate = rejecting, now = 1000\<rparr>"

definition recovering_bot :: bot where
  "recovering_bot = \<lparr>badRejection = True, polling_error_listeners = 1,
                      processUpdate = rejecting, now = 1000\<rparr>"

definition upd :: "int \<Rightarrow> update" where
  "upd n = \<lparr>update_id = n\<rparr>"

definition no_restart :: start_options where
  "no_restart = \<lparr>restart = False\<rparr>"

definition with_restart :: start_options where
  "with_restart = \<lparr>restart = True\<rparr>"

definition graceful :: stop_options where
  "graceful = \<lparr>cancel = False, reason = None\<rparr>"

definition cancelling :: stop_options where
  "cancelling = \<lparr>cancel = True, reason = None\<rparr>"

text \<open>A controller built with \<^verbatim>\<open>polling: true\<close>, after its first \<^verbatim>\<open>start()\<close>.\<close>

definition started :: world where
  "started = snd (start no_restart (new_world (Boolean True)))"

text \<open>The same controller after \<^verbatim>\<open>stop()\<close> without cancel, called while the first cycle
  is in flight.\<close>

definition stopping :: world where
  "stopping = snd (stop graceful started)"

text \<open>The same controller after its first fetch has returned an empty batch: the
  first cycle is over and the timer for the second is pending.\<close>

definition between_cycles :: world where
  "between_cycles = respond quiet_bot 0 (Resolve []) started"

text \<open>The stopping controller after \<^verbatim>\<open>start({restart: true})\<close>: the first cycle is
  still in flight, a second one was launched, and the first stop still waits.\<close>

definition stopping_restarted :: world where
  "stopping_restarted = snd (start with_restart stopping)"

text \<open>The same controller after \<^verbatim>\<open>start({restart: true})\<close>, called while the first cycle
  is in flight.\<close>

definition restarted :: world where
  "restarted = snd (start with_restart started)"

section \<open>Properties\<close>

subsection \<open>The loop over a batch\<close>

lemma forEach_update_frame:
  "promises (snd (forEach_update b r us w)) = promises w \<and>
   waiters (snd (forEach_update b r us w)) = waiters w \<and>
   timers (snd (forEach_update b r us w)) = timers w \<and>
   timer_count (snd (forEach_update b r us w)) = timer_count w \<and>
   (poll (snd (forEach_update b r us w)))\<lparr>params := p\<rparr> = (poll w)\<lparr>params := p\<rparr> \<and>
   (params (poll (snd (forEach_update b r us w))))\<lparr>offset := k\<rparr> = (params (poll w))\<lparr>offset := k\<rparr>"
  by (induction us arbitrary: w) (simp_all add: Let_def emit_def split: option.splits)

lemma forEach_update_all_ok:
  "\<forall>u \<in> set us. processUpdate b u = None \<Longrightarrow>
   fst (forEach_update b r us w) = None \<and>
   trace (snd (forEach_update b r us w)) = trace w @ processor_calls r us \<and>
   offset (params (poll (snd (forEach_update b r us w)))) =
     (if us = [] then offset (params (poll w)) else update_id (last us) + 1)"
  by (induction us arbitrary: w) (simp_all add: Let_def emit_def processor_calls_def)

lemma forEach_update_throw:
  "k < length us \<Longrightarrow> \<forall>j < k. processUpdate b (us ! j) = None \<Longrightarrow>
   processUpdate b (us ! k) = Some e \<Longrightarrow>
   fst (forEach_update b r us w) = Some (e\<lparr>processing := True\<rparr>) \<and>
   trace (snd (forEach_update b r us w)) = trace w @ processor_calls r (take (Suc k) us) \<and>
   offset (params (poll (snd (forEach_update b r us w)))) = update_id (us ! k) + 1"
proof (induction us arbitrary: w k)
  case Nil
  then show ?case by simp
next
  case (Cons u us)
  show ?case
  proof (cases k)
    case 0
    with Cons.prems show ?thesis by (simp add: Let_def emit_def processor_calls_def)
  next
    case (Suc k')
    from Cons.prems Suc have ok: "processUpdate b u = None" by auto
    from Cons.prems Suc have a: "k' < length us" by simp
    from Cons.prems Suc have b: "\<forall>j < k'. processUpdate b (us ! j) = None" by auto
    from Cons.prems Suc have c: "processUpdate b (us ! k') = Some e" by simp
    show ?thesis
      using Cons.IH [OF a b c] ok Suc by (simp add: Let_def emit_def processor_calls_def)
  qed
qed

lemma sorted_last_Max:
  "xs \<noteq> [] \<Longrightarrow> sorted xs \<Longrightarrow> last xs = Max (set (xs :: int list))"
  by (induction xs) (auto simp: max_def intro: antisym)

subsection \<open>What a cycle changes\<close>

lemma error_report_eq: "error_report b err w = emit (reported b err) w"
  by (simp add: error_report_def reported_def)

lemma reported_not_stopped: "reported b err \<noteq> Emit_polling_stopped"
  by (simp add: reported_def)

lemma cycle_work_refl: "cycle_work w w"
  by (simp add: cycle_work_def)

lemma cycle_work_trans: "cycle_work w w1 \<Longrightarrow> cycle_work w1 w2 \<Longrightarrow> cycle_work w w2"
  by (simp add: cycle_work_def)

lemma cycle_work_emit: "e \<noteq> Emit_polling_stopped \<Longrightarrow> cycle_work w (emit e w)"
  by (simp add: cycle_work_def emit_def stopped_count_def)

lemma cycle_work_forEach: "cycle_work w (snd (forEach_update b r us w))"
proof (induction us arbitrary: w)
  case Nil
  show ?case by (simp add: cycle_work_refl)
next
  case (Cons u us)
  let ?w2 = "emit (Call_processUpdate r u (update_id u + 1))
               (w\<lparr>poll := (poll w)\<lparr>params := (params (poll w))\<lparr>offset := update_id u + 1\<rparr>\<rparr>\<rparr>)"
  have a: "cycle_work w ?w2"
    by (simp add: cycle_work_def emit_def stopped_count_def)
  show ?case
  proof (cases "processUpdate b u")
    case None
    then have "snd (forEach_update b r (u # us) w) = snd (forEach_update b r us ?w2)"
      by (simp add: Let_def)
    with cycle_work_trans [OF a Cons.IH [of ?w2]] show ?thesis by simp
  next
    case (Some e)
    then have "snd (forEach_update b r (u # us) w) = ?w2"
      by (simp add: Let_def)
    with a show ?thesis by simp
  qed
qed

lemma cycle_work_polling_then: "cycle_work w (snd (polling_then b r us w))"
proof -
  have "cycle_work w (w\<lparr>poll := (poll w)\<lparr>lastUpdate := now b\<rparr>\<rparr>)"
    by (simp add: cycle_work_def stopped_count_def)
  then show ?thesis
    unfolding polling_then_def by (rule cycle_work_trans) (rule cycle_work_forEach)
qed

lemma cycle_work_recovery_reply: "cycle_work w (handleProcessingError_reply b err rep w)"
  by (cases rep)
     (simp_all add: handleProcessingError_reply_def error_report_eq cycle_work_emit
        reported_not_stopped cycle_work_trans [OF cycle_work_emit cycle_work_emit])

text \<open>The callbacks of a settling chain.\<close>

lemma fold_stop_finally:
  "fold (\<lambda>x. if x = r then stop_finally else id) xs w =
     (if r \<in> set xs
      then w\<lparr>poll := (poll w)\<lparr>abort := False, isPollingActive := False\<rparr>,
             trace := trace w @ replicate (count_list xs r) Emit_polling_stopped\<rparr>
      else w)"
proof (induction xs arbitrary: w)
  case Nil
  show ?case by simp
next
  case (Cons x xs)
  show ?case
    by (simp add: Cons.IH stop_finally_def emit_def replicate_app_Cons_same)
qed

lemma settle_eq:
  "settle r w =
     (let w1 = (set_phase r Settled (polling_finally w))\<lparr>waiters := filter (\<lambda>x. x \<noteq> r) (waiters w)\<rparr>
      in if r \<in> set (waiters w)
         then w1\<lparr>poll := (poll w1)\<lparr>abort := False, isPollingActive := False\<rparr>,
                 trace := trace w1 @ notified r w\<rparr>
         else w1)"
  by (simp add: settle_def fold_stop_finally Let_def set_phase_def polling_finally_def
      setTimeout_def notified_def)

lemma settle_promises: "promises (settle r w) = (promises w)[r := Settled]"
  by (simp add: settle_eq Let_def set_phase_def polling_finally_def setTimeout_def)

lemma settle_trace: "trace (settle r w) = trace w @ notified r w"
  by (simp add: settle_eq Let_def set_phase_def polling_finally_def setTimeout_def
      notified_def)

lemma settle_timers:
  "timers (settle r w) =
     (if abort (poll w) then timers w else timers w @ [(timer_count w, interval (poll w))])"
  by (simp add: settle_eq Let_def set_phase_def polling_finally_def setTimeout_def)

lemma settle_abort: "abort (poll (settle r w)) = (abort (poll w) \<and> r \<notin> set (waiters w))"
  by (simp add: settle_eq Let_def set_phase_def polling_finally_def setTimeout_def)

lemma settle_active:
  "isPollingActive (poll (settle r w)) = (isPollingActive (poll w) \<and> r \<notin> set (waiters w))"
  by (simp add: settle_eq Let_def set_phase_def polling_finally_def setTimeout_def)

lemma settle_params: "params (poll (settle r w)) = params (poll w)"
  by (simp add: settle_eq Let_def set_phase_def polling_finally_def setTimeout_def)

lemma settle_lastRequest: "lastRequest (poll (settle r w)) = lastRequest (poll w)"
  by (simp add: settle_eq Let_def set_phase_def polling_finally_def setTimeout_def)

lemma settle_pollingTimeout:
  "pollingTimeout (poll (settle r w)) =
     (if abort (poll w) then pollingTimeout (poll w) else Some (timer_count w))"
  by (simp add: settle_eq Let_def set_phase_def polling_finally_def setTimeout_def)

lemma settle_waiters: "waiters (settle r w) = filter (\<lambda>x. x \<noteq> r) (waiters w)"
  by (simp add: settle_eq Let_def set_phase_def polling_finally_def setTimeout_def)

subsection \<open>A reply, phase by phase\<close>

lemma respond_fetch_Resolve:
  "awaits_fetch r w \<Longrightarrow>
   respond b r (Resolve us) w =
     (case fst (polling_then b r us w) of
        None \<Rightarrow> settle r (snd (polling_then b r us w))
      | Some err \<Rightarrow> after_catch r (polling_catch b err (snd (polling_then b r us w))))"
  by (auto simp: awaits_fetch_def respond_def in_flight_def pending_def getUpdates_reply_def
      split: prod.splits option.splits)

lemma respond_Refetching_Reject:
  "r < length (promises w) \<Longrightarrow> promises w ! r = Refetching \<Longrightarrow>
   respond b r (Reject err) w = after_catch r (polling_catch b err w)"
  by (simp add: respond_def in_flight_def pending_def getUpdates_reply_def)

lemma respond_Unsetting_Reject:
  "r < length (promises w) \<Longrightarrow> promises w ! r = Unsetting \<Longrightarrow>
   respond b r (Reject err) w = after_catch r (polling_catch b err w)"
  by (simp add: respond_def in_flight_def pending_def getUpdates_reply_def)

lemma respond_Unsetting_Resolve:
  "r < length (promises w) \<Longrightarrow> promises w ! r = Unsetting \<Longrightarrow>
   respond b r (Resolve x) w = set_phase r Refetching (getUpdates_call w)"
  by (simp add: respond_def in_flight_def pending_def getUpdates_reply_def)

lemma respond_Fetching_Reject:
  "r < length (promises w) \<Longrightarrow> promises w ! r = Fetching \<Longrightarrow>
   respond b r (Reject err) w =
     (if webhook_conflict err then set_phase r Unsetting (unsetWebHook w)
      else after_catch r (polling_catch b err w))"
  by (simp add: respond_def in_flight_def pending_def getUpdates_reply_def)

lemma respond_Recovering:
  "r < length (promises w) \<Longrightarrow> promises w ! r = Recovering err \<Longrightarrow>
   respond b r rep w = settle r (handleProcessingError_reply b err rep w)"
  by (simp add: respond_def in_flight_def pending_def)

lemma respond_not_in_flight: "\<not> in_flight r w \<Longrightarrow> respond b r rep w = w"
  by (simp add: respond_def)

lemma after_catch_polling_catch:
  "after_catch r (polling_catch b err w) =
     (if processing err \<and> badRejection b
      then set_phase r (Recovering (err\<lparr>processing := False\<rparr>))
             (emit (Call_getUpdates \<lparr>offset = offset (params (poll w)), timeout = 0, limit = Some 1\<rparr>) w)
      else settle r (emit (reported b (err\<lparr>processing := False\<rparr>)) w))"
  by (cases err) (simp add: after_catch_def polling_catch_def handleProcessingError_def error_report_eq)

subsection \<open>Projections of the elementary steps\<close>

lemma emit_simps:
  "trace (emit e w) = trace w @ [e]" "promises (emit e w) = promises w"
  "poll (emit e w) = poll w" "waiters (emit e w) = waiters w"
  "timers (emit e w) = timers w" "timer_count (emit e w) = timer_count w"
  by (simp_all add: emit_def)

lemma set_phase_simps:
  "trace (set_phase r ph w) = trace w" "promises (set_phase r ph w) = (promises w)[r := ph]"
  "poll (set_phase r ph w) = poll w" "waiters (set_phase r ph w) = waiters w"
  "timers (set_phase r ph w) = timers w" "timer_count (set_phase r ph w) = timer_count w"
  by (simp_all add: set_phase_def)

lemma notified_simps:
  "notified r (emit e w) = notified r w" "notified r (set_phase r' ph w) = notified r w"
  by (simp_all add: notified_def emit_def set_phase_def)

lemma polling_call_simps:
  "fst (polling_call w) = length (promises w)"
  "promises (snd (polling_call w)) = promises w @ [Fetching]"
  "trace (snd (polling_call w)) = trace w @ [Call_getUpdates (params (poll w))]"
  "poll (snd (polling_call w)) = (poll w)\<lparr>lastRequest := Some (length (promises w))\<rparr>"
  "waiters (snd (polling_call w)) = waiters w"
  "timers (snd (polling_call w)) = timers w"
  "timer_count (snd (polling_call w)) = timer_count w"
  by (simp_all add: polling_call_def new_promise_def getUpdates_call_def emit_def)

subsection \<open>The concrete world\<close>

lemma fire_trace:
  "trace (fire h w) =
     (if h \<in> fst ` set (timers w) then trace w @ [Call_getUpdates (params (poll w))] else trace w)"
  by (simp add: fire_def polling_call_def new_promise_def getUpdates_call_def emit_def)

lemma started_eq:
  "started =
     \<lparr>poll = \<lparr>interval = 300, params = \<lparr>offset = 0, timeout = 10, limit = None\<rparr>,
              lastUpdate = 0, lastRequest = Some 0, abort = False, pollingTimeout = None,
              isPollingActive = True\<rparr>,
      promises = [Fetching], waiters = [], timers = [], timer_count = 0,
      trace = [Emit_polling_started, Call_getUpdates \<lparr>offset = 0, timeout = 10, limit = None\<rparr>]\<rparr>"
  by (simp add: started_def start_def no_restart_def new_world_def constructor_def emit_def
      polling_call_def new_promise_def getUpdates_call_def)

lemma awaits_fetch_started: "awaits_fetch 0 started"
  by (simp add: started_eq awaits_fetch_def)

lemmas run_simps =
  started_eq replies_def respond_def in_flight_def pending_def getUpdates_reply_def
  webhook_conflict_def ANOTHER_WEB_HOOK_USED_def unsetWebHook_def getUpdates_call_def
  emit_def set_phase_def after_catch_def polling_catch_def handleProcessingError_def
  handleProcessingError_reply_def error_report_def settle_def polling_finally_def
  setTimeout_def clearTimeout_def stop_finally_def polling_then_def settled_def Let_def
  polling_call_def new_promise_def promise_cancel_def promise_finally_def

lemmas actor_simps =
  quiet_bot_def failing_bot_def recovering_bot_def accepting_def rejecting_def upd_def
  boom_def conflict_def unreachable_def no_restart_def with_restart_def graceful_def
  cancelling_def

lemma stopping_eq:
  "stopping =
     \<lparr>poll = \<lparr>interval = 300, params = \<lparr>offset = 0, timeout = 10, limit = None\<rparr>,
              lastUpdate = 0, lastRequest = None, abort = True, pollingTimeout = None,
              isPollingActive = True\<rparr>,
      promises = [Fetching], waiters = [0], timers = [], timer_count = 0,
      trace = [Emit_polling_started, Call_getUpdates \<lparr>offset = 0, timeout = 10, limit = None\<rparr>]\<rparr>"
  by (simp add: stopping_def stop_def graceful_def started_eq clearTimeout_def
      promise_finally_def settled_def)

lemma between_cycles_eq:
  "between_cycles =
     \<lparr>poll = \<lparr>interval = 300, params = \<lparr>offset = 0, timeout = 10, limit = None\<rparr>,
              lastUpdate = 1000, lastRequest = Some 0, abort = False, pollingTimeout = Some 0,
              isPollingActive = True\<rparr>,
      promises = [Settled], waiters = [], timers = [(0, 300)], timer_count = 1,
      trace = [Emit_polling_started, Call_getUpdates \<lparr>offset = 0, timeout = 10, limit = None\<rparr>]\<rparr>"
  by (simp add: between_cycles_def run_simps actor_simps)

lemma restarted_eq:
  "restarted =
     \<lparr>poll = \<lparr>interval = 300, params = \<lparr>offset = 0, timeout = 10, limit = None\<rparr>,
              lastUpdate = 0, lastRequest = Some 1, abort = False, pollingTimeout = None,
              isPollingActive = False\<rparr>,
      promises = [Cancelled, Fetching], waiters = [], timers = [], timer_count = 0,
      trace = [Emit_polling_started, Call_getUpdates \<lparr>offset = 0, timeout = 10, limit = None\<rparr>,
               Emit_polling_restart, Call_cancel 0 ''Polling restart'', Emit_polling_stopped,
               Call_getUpdates \<lparr>offset = 0, timeout = 10, limit = None\<rparr>]\<rparr>"
  by (simp add: restarted_def start_def with_restart_def stop_def run_simps)

subsection \<open>The offset after a batch\<close>

lemma respond_all_ok:
  assumes "awaits_fetch r w" and "\<forall>u \<in> set updates. processUpdate b u = None"
  shows "respond b r (Resolve updates) w = settle r (snd (polling_then b r updates w))"
    and "trace (snd (polling_then b r updates w)) = trace w @ processor_calls r updates"
    and "offset (params (poll (respond b r (Resolve updates) w))) =
           (if updates = [] then offset (params (poll w)) else update_id (last updates) + 1)"
proof -
  let ?w0 = "w\<lparr>poll := (poll w)\<lparr>lastUpdate := now b\<rparr>\<rparr>"
  from forEach_update_all_ok [OF assms(2), of r ?w0]
  have ok: "fst (polling_then b r updates w) = None"
    and off: "offset (params (poll (snd (polling_then b r updates w)))) =
                (if updates = [] then offset (params (poll w)) else update_id (last updates) + 1)"
    and tr: "trace (snd (polling_then b r updates w)) = trace w @ processor_calls r updates"
    by (simp_all add: polling_then_def)
  show "respond b r (Resolve updates) w = settle r (snd (polling_then b r updates w))"
    by (simp add: respond_fetch_Resolve [OF assms(1)] ok)
  then show "offset (params (poll (respond b r (Resolve updates) w))) =
           (if updates = [] then offset (params (poll w)) else update_id (last updates) + 1)"
    by (simp add: settle_params off)
  show "trace (snd (polling_then b r updates w)) = trace w @ processor_calls r updates"
    by (rule tr)
qed

text \<open>
  C1 (as amended). When chain \<open>r\<close> waits for a fetch, the fetch returns \<open>updates\<close> and
  the processor accepts every update of the batch, the offset after the cycle has
  processed the batch is the identifier of the last update of the batch plus one; an
  empty batch leaves the offset as it was. When the identifiers of the batch are in
  non-decreasing order, that is the maximum of the identifiers plus one.
\<close>

theorem offset_after_successful_batch:
  assumes "awaits_fetch r w" and "\<forall>u \<in> set updates. processUpdate b u = None"
  shows "offset (params (poll (respond b r (Resolve updates) w))) =
           (if updates = [] then offset (params (poll w)) else update_id (last updates) + 1) \<and>
         (updates \<noteq> [] \<and> sorted (map update_id updates) \<longrightarrow>
            offset (params (poll (respond b r (Resolve updates) w))) =
              Max (update_id ` set updates) + 1)"
proof -
  note first = respond_all_ok(3) [OF assms]
  have "last (map update_id updates) = Max (set (map update_id updates))"
    if "updates \<noteq> []" "sorted (map update_id updates)"
    using that by (intro sorted_last_Max) simp_all
  then have "update_id (last updates) = Max (update_id ` set updates)"
    if "updates \<noteq> []" "sorted (map update_id updates)"
    using that by (simp add: last_map)
  with first show ?thesis by simp
qed

theorem offset_after_successful_batch_witness:
  "awaits_fetch 0 started \<and>
   offset (params (poll (respond quiet_bot 0 (Resolve [upd 5, upd 6]) started))) = 7 \<and>
   Max (update_id ` set [upd 5, upd 6]) + 1 = 7"
proof -
  have h: "\<forall>u \<in> set [upd 5, upd 6]. processUpdate quiet_bot u = None"
    by (simp add: quiet_bot_def accepting_def)
  from offset_after_successful_batch [OF awaits_fetch_started h]
  show ?thesis by (simp add: awaits_fetch_started upd_def)
qed

text \<open>
  C1 as stated fails on a batch whose identifiers are not in increasing order: after the
  batch with the identifiers 6 and 5, in this order, the offset is 6, and the maximum
  plus one is 7.
\<close>

theorem offset_is_not_the_maximum:
  "awaits_fetch 0 started \<and>
   processUpdate quiet_bot (upd 6) = None \<and> processUpdate quiet_bot (upd 5) = None \<and>
   offset (params (poll (respond quiet_bot 0 (Resolve [upd 6, upd 5]) started))) = 6 \<and>
   Max (update_id ` set [upd 6, upd 5]) + 1 = 7"
proof -
  have h: "\<forall>u \<in> set [upd 6, upd 5]. processUpdate quiet_bot u = None"
    by (simp add: quiet_bot_def accepting_def)
  have "offset (params (poll (respond quiet_bot 0 (Resolve [upd 6, upd 5]) started))) = 6"
    using respond_all_ok(3) [OF awaits_fetch_started h] by (simp add: upd_def)
  then show ?thesis
    by (simp add: awaits_fetch_started quiet_bot_def accepting_def upd_def)
qed

subsection \<open>A processor that throws\<close>

lemma polling_then_throw:
  assumes "k < length us" and "\<forall>j < k. processUpdate b (us ! j) = None"
    and "processUpdate b (us ! k) = Some e"
  shows "fst (polling_then b r us w) = Some (e\<lparr>processing := True\<rparr>)"
    and "trace (snd (polling_then b r us w)) = trace w @ processor_calls r (take (Suc k) us)"
    and "offset (params (poll (snd (polling_then b r us w)))) = update_id (us ! k) + 1"
  using forEach_update_throw [OF assms, of r "w\<lparr>poll := (poll w)\<lparr>lastUpdate := now b\<rparr>\<rparr>"]
  by (simp_all add: polling_then_def)

lemma polling_then_all_ok:
  assumes "\<forall>u \<in> set us. processUpdate b u = None"
  shows "fst (polling_then b r us w) = None"
    and "trace (snd (polling_then b r us w)) = trace w @ processor_calls r us"
  using forEach_update_all_ok [OF assms, of r "w\<lparr>poll := (poll w)\<lparr>lastUpdate := now b\<rparr>\<rparr>"]
  by (simp_all add: polling_then_def)

lemma polling_then_frame:
  "promises (snd (polling_then b r us w)) = promises w"
  "waiters (snd (polling_then b r us w)) = waiters w"
  "timers (snd (polling_then b r us w)) = timers w"
  "timer_count (snd (polling_then b r us w)) = timer_count w"
  "abort (poll (snd (polling_then b r us w))) = abort (poll w)"
  "interval (poll (snd (polling_then b r us w))) = interval (poll w)"
  using cycle_work_polling_then [of w b r us] by (simp_all add: cycle_work_def)

lemma polling_then_params:
  "params (poll (snd (polling_then b r us w))) =
     (params (poll w))\<lparr>offset := offset (params (poll (snd (polling_then b r us w))))\<rparr>"
proof -
  let ?w0 = "w\<lparr>poll := (poll w)\<lparr>lastUpdate := now b\<rparr>\<rparr>"
  let ?p = "params (poll (snd (forEach_update b r us ?w0)))"
  have "?p\<lparr>offset := offset ?p\<rparr> = (params (poll ?w0))\<lparr>offset := offset ?p\<rparr>"
    using forEach_update_frame [of b r us ?w0] by blast
  then show ?thesis by (simp add: polling_then_def)
qed

lemma respond_throw:
  assumes "awaits_fetch r w" and "k < length us"
    and "\<forall>j < k. processUpdate b (us ! j) = None" and "processUpdate b (us ! k) = Some e"
  shows "respond b r (Resolve us) w =
           (if badRejection b
            then set_phase r (Recovering (e\<lparr>processing := False\<rparr>))
                   (emit (Call_getUpdates \<lparr>offset = update_id (us ! k) + 1, timeout = 0, limit = Some 1\<rparr>)
                      (snd (polling_then b r us w)))
            else settle r (emit (reported b (e\<lparr>processing := False\<rparr>)) (snd (polling_then b r us w))))"
  by (simp add: respond_fetch_Resolve [OF assms(1)] polling_then_throw [OF assms(2-4)]
      after_catch_polling_catch)

text \<open>
  C9. The loop over a batch writes the offset, the update's identifier plus one, before
  it calls the processor for that update, in the order of the batch (each processor call
  of the trace carries the offset it saw). When the processor throws at an update, the
  error is thrown on with the processing tag, the calls made are those up to this update
  and no later update of the batch is processed. For the batch of the one update 5 and a
  processor that throws, with recovery disabled: the processor saw the offset 6, the
  error is reported, the offset is 6, the next cycle is scheduled, and its fetch, when
  the timer fires, asks for the offset 6.
\<close>

theorem offset_written_before_processor:
  "((\<forall>u \<in> set us. processUpdate b u = None) \<longrightarrow>
      fst (polling_then b r us w) = None \<and>
      trace (snd (polling_then b r us w)) = trace w @ processor_calls r us) \<and>
   (k < length us \<and> (\<forall>j < k. processUpdate b (us ! j) = None) \<and>
    processUpdate b (us ! k) = Some e \<longrightarrow>
      fst (polling_then b r us w) = Some (e\<lparr>processing := True\<rparr>) \<and>
      trace (snd (polling_then b r us w)) = trace w @ processor_calls r (take (Suc k) us) \<and>
      offset (params (poll (snd (polling_then b r us w)))) = update_id (us ! k) + 1) \<and>
   (awaits_fetch r w \<and> \<not> abort (poll w) \<and> r \<notin> set (waiters w) \<and> \<not> badRejection b \<and>
    processUpdate b (upd 5) = Some e \<longrightarrow>
      trace (respond b r (Resolve [upd 5]) w) =
        trace w @ [Call_processUpdate r (upd 5) 6, reported b (e\<lparr>processing := False\<rparr>)] \<and>
      offset (params (poll (respond b r (Resolve [upd 5]) w))) = 6 \<and>
      timers (respond b r (Resolve [upd 5]) w) = timers w @ [(timer_count w, interval (poll w))] \<and>
      trace (fire (timer_count w) (respond b r (Resolve [upd 5]) w)) =
        trace (respond b r (Resolve [upd 5]) w) @
          [Call_getUpdates ((params (poll w))\<lparr>offset := 6\<rparr>)])"
proof (intro conjI impI)
  assume "\<forall>u \<in> set us. processUpdate b u = None"
  then show "fst (polling_then b r us w) = None"
    and "trace (snd (polling_then b r us w)) = trace w @ processor_calls r us"
    by (rule polling_then_all_ok)+
next
  assume a: "k < length us \<and> (\<forall>j < k. processUpdate b (us ! j) = None) \<and>
    processUpdate b (us ! k) = Some e"
  then show "fst (polling_then b r us w) = Some (e\<lparr>processing := True\<rparr>)"
    by (intro polling_then_throw(1) [of k]) simp_all
  from a show "trace (snd (polling_then b r us w)) = trace w @ processor_calls r (take (Suc k) us)"
    by (intro polling_then_throw(2)) simp_all
  from a show "offset (params (poll (snd (polling_then b r us w)))) = update_id (us ! k) + 1"
    by (intro polling_then_throw(3)) simp_all
next
  assume a: "awaits_fetch r w \<and> \<not> abort (poll w) \<and> r \<notin> set (waiters w) \<and> \<not> badRejection b \<and>
    processUpdate b (upd 5) = Some e"
  let ?w1 = "snd (polling_then b r [upd 5] w)"
  let ?w2 = "emit (reported b (e\<lparr>processing := False\<rparr>)) ?w1"
  have thrown: "0 < length [upd 5]" "\<forall>j < 0. processUpdate b ([upd 5] ! j) = None"
    "processUpdate b ([upd 5] ! 0) = Some e"
    using a by simp_all
  have r: "respond b r (Resolve [upd 5]) w = settle r ?w2"
    using a respond_throw [OF _ thrown, of r w] by simp
  have t1: "trace ?w1 = trace w @ [Call_processUpdate r (upd 5) 6]"
    using polling_then_throw(2) [OF thrown, of r w] by (simp add: processor_calls_def upd_def)
  have o1: "offset (params (poll ?w1)) = 6"
    using polling_then_throw(3) [OF thrown, of r w] by (simp add: upd_def)
  have p1: "params (poll ?w1) = (params (poll w))\<lparr>offset := 6\<rparr>"
    using polling_then_params [of b r "[upd 5]" w] o1 by simp
  have n: "notified r ?w2 = []"
    using a by (simp add: notified_def emit_def polling_then_frame)
  show tr: "trace (respond b r (Resolve [upd 5]) w) =
        trace w @ [Call_processUpdate r (upd 5) 6, reported b (e\<lparr>processing := False\<rparr>)]"
    by (simp add: r settle_trace n) (simp add: emit_def t1)
  show "offset (params (poll (respond b r (Resolve [upd 5]) w))) = 6"
    by (simp add: r settle_params) (simp add: emit_def o1)
  show tm: "timers (respond b r (Resolve [upd 5]) w) = timers w @ [(timer_count w, interval (poll w))]"
    using a by (simp add: r settle_timers) (simp add: emit_def polling_then_frame)
  have "params (poll (respond b r (Resolve [upd 5]) w)) = (params (poll w))\<lparr>offset := 6\<rparr>"
    by (simp add: r settle_params) (simp add: emit_def p1)
  then show "trace (fire (timer_count w) (respond b r (Resolve [upd 5]) w)) =
        trace (respond b r (Resolve [upd 5]) w) @
          [Call_getUpdates ((params (poll w))\<lparr>offset := 6\<rparr>)]"
    by (simp add: fire_trace tm)
qed

theorem offset_written_before_processor_witness:
  "awaits_fetch 0 started \<and> \<not> abort (poll started) \<and> 0 \<notin> set (waiters started) \<and>
   \<not> badRejection failing_bot \<and> processUpdate failing_bot (upd 5) = Some boom \<and>
   fst (polling_then failing_bot 0 [upd 5] started) = Some (boom\<lparr>processing := True\<rparr>) \<and>
   fst (polling_then quiet_bot 0 [upd 5, upd 6] started) = None \<and>
   trace (snd (polling_then quiet_bot 0 [upd 5, upd 6] started)) =
     trace started @ [Call_processUpdate 0 (upd 5) 6, Call_processUpdate 0 (upd 6) 7] \<and>
   trace (respond failing_bot 0 (Resolve [upd 5]) started) =
     trace started @ [Call_processUpdate 0 (upd 5) 6, Emit_polling_error boom] \<and>
   offset (params (poll (respond failing_bot 0 (Resolve [upd 5]) started))) = 6 \<and>
   trace (fire 0 (respond failing_bot 0 (Resolve [upd 5]) started)) =
     trace (respond failing_bot 0 (Resolve [upd 5]) started) @
       [Call_getUpdates \<lparr>offset = 6, timeout = 10, limit = None\<rparr>]"
proof -
  have h: "awaits_fetch 0 started \<and> \<not> abort (poll started) \<and> 0 \<notin> set (waiters started) \<and>
    \<not> badRejection failing_bot \<and> processUpdate failing_bot (upd 5) = Some boom"
    by (simp add: awaits_fetch_started) (simp add: started_eq failing_bot_def rejecting_def)
  have q: "\<forall>u \<in> set [upd 5, upd 6]. processUpdate quiet_bot u = None"
    by (simp add: quiet_bot_def accepting_def)
  have t: "(0::nat) < length [upd 5] \<and> (\<forall>j < 0. processUpdate failing_bot ([upd 5] ! j) = None) \<and>
    processUpdate failing_bot ([upd 5] ! 0) = Some boom"
    by (simp add: failing_bot_def rejecting_def)
  note a = offset_written_before_processor [of "[upd 5, upd 6]" quiet_bot 0 started 0 boom]
  note b = offset_written_before_processor [of "[upd 5]" failing_bot 0 started 0 boom]
  have c: "reported failing_bot (boom\<lparr>processing := False\<rparr>) = Emit_polling_error boom"
    by (simp add: reported_def failing_bot_def boom_def)
  have d: "timer_count started = 0" "params (poll started)\<lparr>offset := 6\<rparr> = \<lparr>offset = 6, timeout = 10, limit = None\<rparr>"
    by (simp_all add: started_eq)
  from a q have a': "fst (polling_then quiet_bot 0 [upd 5, upd 6] started) = None \<and>
      trace (snd (polling_then quiet_bot 0 [upd 5, upd 6] started)) =
        trace started @ processor_calls 0 [upd 5, upd 6]" by blast
  from b t have b1: "fst (polling_then failing_bot 0 [upd 5] started) = Some (boom\<lparr>processing := True\<rparr>)"
    by blast
  from b h have b2: "trace (respond failing_bot 0 (Resolve [upd 5]) started) =
        trace started @ [Call_processUpdate 0 (upd 5) 6, reported failing_bot (boom\<lparr>processing := False\<rparr>)] \<and>
      offset (params (poll (respond failing_bot 0 (Resolve [upd 5]) started))) = 6 \<and>
      timers (respond failing_bot 0 (Resolve [upd 5]) started) = timers started @ [(timer_count started, interval (poll started))] \<and>
      trace (fire (timer_count started) (respond failing_bot 0 (Resolve [upd 5]) started)) =
        trace (respond failing_bot 0 (Resolve [upd 5]) started) @
          [Call_getUpdates ((params (poll started))\<lparr>offset := 6\<rparr>)]"
    by blast
  from h a' b1 b2 show ?thesis
    by (simp add: c d processor_calls_def upd_def)
qed

subsection \<open>The shape of every reply\<close>

lemma cycle_work_catch_stage:
  assumes "cycle_work w w1"
  shows "(\<exists>w2. cycle_work w w2 \<and> after_catch r (polling_catch b err w1) = settle r w2) \<or>
         (\<exists>w2 e. cycle_work w w2 \<and>
            after_catch r (polling_catch b err w1) = set_phase r (Recovering e) w2)"
proof (cases "processing err \<and> badRejection b")
  case True
  let ?w2 = "emit (Call_getUpdates \<lparr>offset = offset (params (poll w1)), timeout = 0, limit = Some 1\<rparr>) w1"
  have "cycle_work w ?w2"
    by (rule cycle_work_trans [OF assms]) (simp add: cycle_work_emit)
  with True show ?thesis
    unfolding after_catch_polling_catch by auto
next
  case False
  let ?w2 = "emit (reported b (err\<lparr>processing := False\<rparr>)) w1"
  have "cycle_work w ?w2"
    by (rule cycle_work_trans [OF assms]) (simp add: cycle_work_emit reported_not_stopped)
  with False show ?thesis
    unfolding after_catch_polling_catch by auto
qed

lemma pending_simps:
  "pending Fetching" "pending Unsetting" "pending Refetching" "pending (Recovering e)"
  "\<not> pending Settled" "\<not> pending Cancelled"
  by (simp_all add: pending_def)

lemma replies_left_simps:
  "replies_left Fetching = 4" "replies_left Unsetting = 3" "replies_left Refetching = 2"
  "replies_left (Recovering e) = 1" "replies_left Settled = 0" "replies_left Cancelled = 0"
  by (simp_all add: replies_left_def)

lemma respond_shape:
  assumes "in_flight r w"
  shows "(\<exists>w1. cycle_work w w1 \<and> respond b r rep w = settle r w1) \<or>
         (\<exists>w1 ph. cycle_work w w1 \<and> pending ph \<and>
            replies_left ph < replies_left (promises w ! r) \<and>
            respond b r rep w = set_phase r ph w1)"
proof -
  from assms have len: "r < length (promises w)" and pen: "pending (promises w ! r)"
    by (simp_all add: in_flight_def)
  have waits: "?thesis"
    if "cycle_work w v" "pending ph" "replies_left ph < replies_left (promises w ! r)"
      "respond b r rep w = set_phase r ph v" for v ph
    using that by blast
  have settles: "?thesis" if "cycle_work w v" "respond b r rep w = settle r v" for v
    using that by blast
  have catch_stage: "?thesis"
    if "respond b r rep w = after_catch r (polling_catch b err w1)" "cycle_work w w1"
      "1 < replies_left (promises w ! r)" for err w1
  proof -
    from cycle_work_catch_stage [OF that(2), of r b err]
    consider (ends) w2 where "cycle_work w w2" "after_catch r (polling_catch b err w1) = settle r w2"
      | (goes_on) w2 e where "cycle_work w w2"
          "after_catch r (polling_catch b err w1) = set_phase r (Recovering e) w2"
      by blast
    then show ?thesis
    proof cases
      case ends
      with that(1) show ?thesis by (intro settles [where v = w2]) simp_all
    next
      case goes_on
      with that(1,3) show ?thesis
        by (intro waits [where v = w2 and ph = "Recovering e"]) (simp_all add: pending_simps replies_left_simps)
    qed
  qed
  have fetched: "?thesis" if f: "awaits_fetch r w" and rep: "rep = Resolve us" for us
  proof (cases "fst (polling_then b r us w)")
    case None
    with respond_fetch_Resolve [OF f, of b us] rep
    show ?thesis
      by (intro settles [where v = "snd (polling_then b r us w)"]) (simp_all add: cycle_work_polling_then)
  next
    case (Some err)
    from f have "1 < replies_left (promises w ! r)"
      by (auto simp: awaits_fetch_def replies_left_simps)
    with Some respond_fetch_Resolve [OF f, of b us] rep
    show ?thesis
      by (intro catch_stage [of err "snd (polling_then b r us w)"])
         (simp_all add: cycle_work_polling_then)
  qed
  show ?thesis
  proof (cases "promises w ! r")
    case Fetching
    show ?thesis
    proof (cases rep)
      case (Resolve us)
      with Fetching len show ?thesis by (intro fetched [of us]) (simp_all add: awaits_fetch_def)
    next
      case (Reject err)
      show ?thesis
      proof (cases "webhook_conflict err")
        case True
        with Reject Fetching respond_Fetching_Reject [OF len Fetching, of b err]
        show ?thesis
          by (intro waits [where v = "unsetWebHook w" and ph = Unsetting])
             (simp_all add: unsetWebHook_def cycle_work_emit pending_simps replies_left_simps)
      next
        case False
        with Reject Fetching respond_Fetching_Reject [OF len Fetching, of b err]
        show ?thesis
          by (intro catch_stage [of err w]) (simp_all add: cycle_work_refl replies_left_simps)
      qed
    qed
  next
    case Unsetting
    show ?thesis
    proof (cases rep)
      case (Resolve x)
      with Unsetting respond_Unsetting_Resolve [OF len Unsetting, of b x]
      show ?thesis
        by (intro waits [where v = "getUpdates_call w" and ph = Refetching])
           (simp_all add: getUpdates_call_def cycle_work_emit pending_simps replies_left_simps)
    next
      case (Reject err)
      with Unsetting respond_Unsetting_Reject [OF len Unsetting, of b err]
      show ?thesis
        by (intro catch_stage [of err w]) (simp_all add: cycle_work_refl replies_left_simps)
    qed
  next
    case Refetching
    show ?thesis
    proof (cases rep)
      case (Resolve us)
      with Refetching len show ?thesis by (intro fetched [of us]) (simp_all add: awaits_fetch_def)
    next
      case (Reject err)
      with Refetching respond_Refetching_Reject [OF len Refetching, of b err]
      show ?thesis
        by (intro catch_stage [of err w]) (simp_all add: cycle_work_refl replies_left_simps)
    qed
  next
    case (Recovering e)
    with respond_Recovering [OF len Recovering, of b rep]
    show ?thesis
      by (intro settles [where v = "handleProcessingError_reply b e rep w"])
         (simp_all add: cycle_work_recovery_reply)
  next
    case Settled
    with pen show ?thesis by (simp add: pending_simps)
  next
    case Cancelled
    with pen show ?thesis by (simp add: pending_simps)
  qed
qed

subsection \<open>The end of a cycle\<close>

lemma settled_settle: "r < length (promises w) \<Longrightarrow> settled r (settle r w)"
  by (simp add: settled_def settle_promises)

lemma respond_settles_or_waits:
  assumes "in_flight r w"
  shows "(settled r (respond b r rep w) \<and>
          timers (respond b r rep w) =
            (if abort (poll w) then timers w else timers w @ [(timer_count w, interval (poll w))]) \<and>
          pollingTimeout (poll (respond b r rep w)) =
            (if abort (poll w) then pollingTimeout (poll w) else Some (timer_count w))) \<or>
         (in_flight r (respond b r rep w) \<and> timers (respond b r rep w) = timers w \<and>
          replies_left (promises (respond b r rep w) ! r) < replies_left (promises w ! r))"
proof -
  from assms have len: "r < length (promises w)" by (simp add: in_flight_def)
  from respond_shape [OF assms, of b rep]
  consider (ends) w1 where "cycle_work w w1" "respond b r rep w = settle r w1"
    | (goes_on) w1 ph where "cycle_work w w1" "pending ph"
        "replies_left ph < replies_left (promises w ! r)" "respond b r rep w = set_phase r ph w1"
    by blast
  then show ?thesis
  proof cases
    case ends
    from ends(1) len have "r < length (promises w1)" by (simp add: cycle_work_def)
    then have "settled r (settle r w1)" by (rule settled_settle)
    with ends show ?thesis
      by (simp add: settle_timers settle_pollingTimeout cycle_work_def)
  next
    case goes_on
    with len show ?thesis
      by (simp add: in_flight_def set_phase_def cycle_work_def)
  qed
qed

lemma settled_not_in_flight: "settled r w \<Longrightarrow> \<not> in_flight r w"
  by (simp add: settled_def in_flight_def pending_simps)

lemma replies_left_respond:
  assumes "r < length (promises w)" and "promises w ! r \<noteq> Cancelled"
  shows "r < length (promises (respond b r rep w)) \<and>
         promises (respond b r rep w) ! r \<noteq> Cancelled \<and>
         replies_left (promises (respond b r rep w) ! r) \<le> replies_left (promises w ! r) - 1"
proof (cases "in_flight r w")
  case True
  from respond_settles_or_waits [OF True, of b rep] show ?thesis
    by (auto simp: settled_def in_flight_def replies_left_simps pending_simps)
next
  case False
  with assms have "promises w ! r = Settled"
    by (cases "promises w ! r") (simp_all add: in_flight_def pending_simps)
  with False assms show ?thesis
    by (simp add: respond_not_in_flight replies_left_simps)
qed

lemma four_replies_settle:
  assumes "in_flight r w"
  shows "settled r (replies b r [rep1, rep2, rep3, rep4] w)"
proof -
  let ?w1 = "respond b r rep1 w"
  let ?w2 = "respond b r rep2 ?w1"
  let ?w3 = "respond b r rep3 ?w2"
  let ?w4 = "respond b r rep4 ?w3"
  from assms have p0: "r < length (promises w)" "promises w ! r \<noteq> Cancelled"
    by (auto simp: in_flight_def pending_simps)
  have m0: "replies_left (promises w ! r) \<le> 4"
    by (cases "promises w ! r") (simp_all add: replies_left_simps)
  note s1 = replies_left_respond [OF p0, of b rep1]
  from s1 have p1: "r < length (promises ?w1)" "promises ?w1 ! r \<noteq> Cancelled" by simp_all
  note s2 = replies_left_respond [OF p1, of b rep2]
  from s2 have p2: "r < length (promises ?w2)" "promises ?w2 ! r \<noteq> Cancelled" by simp_all
  note s3 = replies_left_respond [OF p2, of b rep3]
  from s3 have p3: "r < length (promises ?w3)" "promises ?w3 ! r \<noteq> Cancelled" by simp_all
  note s4 = replies_left_respond [OF p3, of b rep4]
  from m0 s1 s2 s3 s4 have "replies_left (promises ?w4 ! r) = 0" by linarith
  with s4 have "promises ?w4 ! r = Settled"
    by (cases "promises ?w4 ! r") (simp_all add: replies_left_simps)
  with s4 show ?thesis by (simp add: replies_def settled_def)
qed

lemma fire_launches:
  "h \<in> fst ` set (timers w) \<Longrightarrow>
   promises (fire h w) = promises w @ [Fetching] \<and>
   lastRequest (poll (fire h w)) = Some (length (promises w)) \<and>
   trace (fire h w) = trace w @ [Call_getUpdates (params (poll w))]"
  by (simp add: fire_def polling_call_def new_promise_def getUpdates_call_def emit_def)

text \<open>
  C8. Every reply to a cycle in flight either leaves the cycle in flight, waiting for its
  next reply, or ends it; four replies end every cycle. Whatever path the cycle took
  (batch processed, fetch error, processing error with or without recovery, recovery
  failure), the step that ends it sets a timer of \<^verbatim>\<open>interval\<close> milliseconds, kept in
  \<^verbatim>\<open>_pollingTimeout\<close>, when no abort was requested, and sets no timer when an abort was
  requested. A timer that fires launches the next cycle with a fetch.
\<close>

theorem cycle_end_reschedules:
  "in_flight r w \<longrightarrow>
     (settled r (respond b r rep w) \<longrightarrow>
        timers (respond b r rep w) =
          (if abort (poll w) then timers w else timers w @ [(timer_count w, interval (poll w))]) \<and>
        pollingTimeout (poll (respond b r rep w)) =
          (if abort (poll w) then pollingTimeout (poll w) else Some (timer_count w)) \<and>
        (h \<in> fst ` set (timers (respond b r rep w)) \<longrightarrow>
           promises (fire h (respond b r rep w)) = promises (respond b r rep w) @ [Fetching] \<and>
           trace (fire h (respond b r rep w)) =
             trace (respond b r rep w) @ [Call_getUpdates (params (poll (respond b r rep w)))])) \<and>
     (\<not> settled r (respond b r rep w) \<longrightarrow>
        in_flight r (respond b r rep w) \<and> timers (respond b r rep w) = timers w) \<and>
     settled r (replies b r [rep, rep2, rep3, rep4] w)"
proof (intro impI conjI)
  assume a: "in_flight r w"
  show "settled r (replies b r [rep, rep2, rep3, rep4] w)"
    by (rule four_replies_settle [OF a])
  {
    assume s: "settled r (respond b r rep w)"
    with respond_settles_or_waits [OF a, of b rep] settled_not_in_flight [OF s]
    show "timers (respond b r rep w) =
          (if abort (poll w) then timers w else timers w @ [(timer_count w, interval (poll w))])"
      and "pollingTimeout (poll (respond b r rep w)) =
          (if abort (poll w) then pollingTimeout (poll w) else Some (timer_count w))"
      by blast+
    assume h: "h \<in> fst ` set (timers (respond b r rep w))"
    from fire_launches [OF h]
    show "promises (fire h (respond b r rep w)) = promises (respond b r rep w) @ [Fetching]"
      and "trace (fire h (respond b r rep w)) =
             trace (respond b r rep w) @ [Call_getUpdates (params (poll (respond b r rep w)))]"
      by simp_all
  }
  {
    assume s: "\<not> settled r (respond b r rep w)"
    with respond_settles_or_waits [OF a, of b rep]
    show "in_flight r (respond b r rep w)" and "timers (respond b r rep w) = timers w"
      by blast+
  }
qed

theorem cycle_end_reschedules_witness:
  "in_flight 0 started \<and> settled 0 (respond quiet_bot 0 (Resolve []) started) \<and>
   timers (respond quiet_bot 0 (Resolve []) started) = [(0, 300)] \<and>
   0 \<in> fst ` set (timers (respond quiet_bot 0 (Resolve []) started)) \<and>
   promises (fire 0 (respond quiet_bot 0 (Resolve []) started)) = [Settled, Fetching] \<and>
   in_flight 0 (respond quiet_bot 0 (Reject conflict) started) \<and>
   settled 0 (replies quiet_bot 0 [Reject conflict, Resolve [], Reject conflict, Resolve []] started)"
proof -
  have h: "in_flight 0 started"
    by (simp add: started_eq in_flight_def pending_def)
  have s: "settled 0 (respond quiet_bot 0 (Resolve []) started)"
    by (simp add: run_simps actor_simps)
  have n: "\<not> settled 0 (respond quiet_bot 0 (Reject conflict) started)"
    by (simp add: run_simps actor_simps)
  have p: "promises (respond quiet_bot 0 (Resolve []) started) = [Settled]"
    by (simp add: run_simps actor_simps)
  note a = cycle_end_reschedules [of 0 started quiet_bot "Resolve []" 0 "Resolve []" "Reject conflict" "Resolve []"]
  note b = cycle_end_reschedules [of 0 started quiet_bot "Reject conflict" 0 "Resolve []" "Reject conflict" "Resolve []"]
  from a h s have t: "timers (respond quiet_bot 0 (Resolve []) started) =
      (if abort (poll started) then timers started
       else timers started @ [(timer_count started, interval (poll started))])"
    by blast
  then have t': "timers (respond quiet_bot 0 (Resolve []) started) = [(0, 300)]"
    by (simp add: started_eq)
  then have m: "0 \<in> fst ` set (timers (respond quiet_bot 0 (Resolve []) started))"
    by simp
  from a h s m have f: "promises (fire 0 (respond quiet_bot 0 (Resolve []) started)) =
      promises (respond quiet_bot 0 (Resolve []) started) @ [Fetching]"
    by blast
  from b h n have i: "in_flight 0 (respond quiet_bot 0 (Reject conflict) started)"
    by blast
  from b h have e: "settled 0 (replies quiet_bot 0 [Reject conflict, Resolve [], Reject conflict, Resolve []] started)"
    by blast
  from h s t' m f i e show ?thesis by (simp add: p)
qed

subsection \<open>The webhook conflict\<close>

lemma reject_trace:
  "\<not> processing err \<Longrightarrow>
   trace (after_catch r (polling_catch b err w)) = trace w @ [reported b err] @ notified r w"
  by (cases err) (simp add: after_catch_polling_catch settle_trace emit_simps notified_simps)

text \<open>
  C6 (as amended). A cycle starts with one fetch with the current parameters. When that
  fetch fails with the webhook-conflict status, the cycle makes one \<^verbatim>\<open>_unsetWebHook\<close>
  call and reports nothing; when that call succeeds, it makes one retried fetch with the
  same parameters, still reporting nothing. A failure of the retried fetch goes to the
  \<^verbatim>\<open>catch\<close> stage of the cycle, where a failure of a first fetch without the conflict
  status goes: it is reported once, with no further unset call and no further fetch. A
  failure of the \<^verbatim>\<open>_unsetWebHook\<close> call goes there as well, and then no retried fetch is
  made. A first fetch that fails with any other error makes no unset call and no retry.
\<close>

theorem webhook_conflict_takeover:
  "trace (snd (polling_call w0)) = trace w0 @ [Call_getUpdates (params (poll w0))] \<and>
   promises (snd (polling_call w0)) ! fst (polling_call w0) = Fetching \<and>
   params (poll (snd (polling_call w0))) = params (poll w0) \<and>
   (r < length (promises w) \<and> promises w ! r = Fetching \<longrightarrow>
     (webhook_conflict err \<longrightarrow>
        respond b r (Reject err) w = set_phase r Unsetting (emit Call_setWebHook w) \<and>
        respond b r (Resolve x) (respond b r (Reject err) w) =
          set_phase r Refetching
            (emit (Call_getUpdates (params (poll w))) (emit Call_setWebHook w)) \<and>
        respond b r (Reject err') (respond b r (Resolve x) (respond b r (Reject err) w)) =
          after_catch r
            (polling_catch b err' (respond b r (Resolve x) (respond b r (Reject err) w))) \<and>
        respond b r (Reject err') (respond b r (Reject err) w) =
          after_catch r (polling_catch b err' (respond b r (Reject err) w)) \<and>
        (\<not> processing err' \<longrightarrow>
           trace (respond b r (Reject err') (respond b r (Resolve x) (respond b r (Reject err) w))) =
             trace w @ [Call_setWebHook, Call_getUpdates (params (poll w)), reported b err'] @
               notified r w \<and>
           trace (respond b r (Reject err') (respond b r (Reject err) w)) =
             trace w @ [Call_setWebHook, reported b err'] @ notified r w)) \<and>
     (\<not> webhook_conflict err \<longrightarrow>
        respond b r (Reject err) w = after_catch r (polling_catch b err w) \<and>
        (\<not> processing err \<longrightarrow>
           trace (respond b r (Reject err) w) = trace w @ [reported b err] @ notified r w)))"
proof (intro conjI impI)
  show "trace (snd (polling_call w0)) = trace w0 @ [Call_getUpdates (params (poll w0))]"
    and "promises (snd (polling_call w0)) ! fst (polling_call w0) = Fetching"
    and "params (poll (snd (polling_call w0))) = params (poll w0)"
    by (simp_all add: polling_call_simps)
next
  assume a: "r < length (promises w) \<and> promises w ! r = Fetching"
  then have len: "r < length (promises w)" and ph: "promises w ! r = Fetching" by simp_all
  {
    assume c: "webhook_conflict err"
    let ?w1 = "set_phase r Unsetting (emit Call_setWebHook w)"
    let ?w2 = "set_phase r Refetching
                 (emit (Call_getUpdates (params (poll w))) (emit Call_setWebHook w))"
    show r1: "respond b r (Reject err) w = ?w1"
      by (simp add: respond_Fetching_Reject [OF len ph] c unsetWebHook_def)
    have len1: "r < length (promises ?w1)" and ph1: "promises ?w1 ! r = Unsetting"
      using len by (simp_all add: set_phase_simps emit_simps)
    show r2: "respond b r (Resolve x) (respond b r (Reject err) w) = ?w2"
      unfolding r1 respond_Unsetting_Resolve [OF len1 ph1]
      by (simp add: getUpdates_call_def set_phase_def emit_def)
    have len2: "r < length (promises ?w2)" and ph2: "promises ?w2 ! r = Refetching"
      using len by (simp_all add: set_phase_simps emit_simps)
    show r3: "respond b r (Reject err') (respond b r (Resolve x) (respond b r (Reject err) w)) =
          after_catch r
            (polling_catch b err' (respond b r (Resolve x) (respond b r (Reject err) w)))"
      unfolding r2 by (rule respond_Refetching_Reject [OF len2 ph2])
    show r4: "respond b r (Reject err') (respond b r (Reject err) w) =
          after_catch r (polling_catch b err' (respond b r (Reject err) w))"
      unfolding r1 by (rule respond_Unsetting_Reject [OF len1 ph1])
    assume p: "\<not> processing err'"
    show "trace (respond b r (Reject err') (respond b r (Resolve x) (respond b r (Reject err) w))) =
             trace w @ [Call_setWebHook, Call_getUpdates (params (poll w)), reported b err'] @
               notified r w"
      unfolding r3 unfolding r2
      by (simp add: reject_trace [OF p] set_phase_simps emit_simps notified_simps)
    show "trace (respond b r (Reject err') (respond b r (Reject err) w)) =
             trace w @ [Call_setWebHook, reported b err'] @ notified r w"
      unfolding r4 unfolding r1
      by (simp add: reject_trace [OF p] set_phase_simps emit_simps notified_simps)
  }
  {
    assume c: "\<not> webhook_conflict err"
    show r5: "respond b r (Reject err) w = after_catch r (polling_catch b err w)"
      by (simp add: respond_Fetching_Reject [OF len ph] c)
    assume p: "\<not> processing err"
    show "trace (respond b r (Reject err) w) = trace w @ [reported b err] @ notified r w"
      unfolding r5 by (rule reject_trace [OF p])
  }
qed

theorem webhook_conflict_takeover_witness:
  "0 < length (promises started) \<and> promises started ! 0 = Fetching \<and>
   webhook_conflict conflict \<and> \<not> webhook_conflict unreachable \<and> \<not> processing unreachable \<and>
   trace (respond quiet_bot 0 (Reject unreachable)
            (respond quiet_bot 0 (Resolve []) (respond quiet_bot 0 (Reject conflict) started))) =
     [Emit_polling_started, Call_getUpdates \<lparr>offset = 0, timeout = 10, limit = None\<rparr>,
      Call_setWebHook, Call_getUpdates \<lparr>offset = 0, timeout = 10, limit = None\<rparr>,
      Console_polling_error unreachable] \<and>
   trace (respond quiet_bot 0 (Reject unreachable) started) =
     [Emit_polling_started, Call_getUpdates \<lparr>offset = 0, timeout = 10, limit = None\<rparr>,
      Console_polling_error unreachable]"
proof -
  have h: "0 < length (promises started) \<and> promises started ! 0 = Fetching"
    by (simp add: started_eq)
  have c: "webhook_conflict conflict" "\<not> webhook_conflict unreachable" "\<not> processing unreachable"
    by (simp_all add: webhook_conflict_def ANOTHER_WEB_HOOK_USED_def conflict_def unreachable_def)
  have n: "notified 0 started = []" "reported quiet_bot unreachable = Console_polling_error unreachable"
    "trace started = [Emit_polling_started, Call_getUpdates \<lparr>offset = 0, timeout = 10, limit = None\<rparr>]"
    "params (poll started) = \<lparr>offset = 0, timeout = 10, limit = None\<rparr>"
    by (simp_all add: notified_def reported_def quiet_bot_def started_eq)
  from webhook_conflict_takeover [of started 0 started conflict quiet_bot "[]" unreachable] h c
  have a: "trace (respond quiet_bot 0 (Reject unreachable)
            (respond quiet_bot 0 (Resolve []) (respond quiet_bot 0 (Reject conflict) started))) =
     trace started @ [Call_setWebHook, Call_getUpdates (params (poll started)),
       reported quiet_bot unreachable] @ notified 0 started"
    by blast
  from webhook_conflict_takeover [of started 0 started unreachable quiet_bot "[]" unreachable] h c
  have b: "trace (respond quiet_bot 0 (Reject unreachable) started) =
     trace started @ [reported quiet_bot unreachable] @ notified 0 started"
    by blast
  from h c a b show ?thesis by (simp add: n)
qed

text \<open>
  C6 as stated fails when the \<^verbatim>\<open>_unsetWebHook\<close> call itself fails: the cycle has made one
  fetch and one unset call, it reports the error and ends, and no retried fetch is made.
\<close>

theorem unset_failure_skips_the_retry:
  "webhook_conflict conflict \<and> promises started ! 0 = Fetching \<and>
   trace (replies quiet_bot 0 [Reject conflict, Reject unreachable] started) =
     [Emit_polling_started, Call_getUpdates \<lparr>offset = 0, timeout = 10, limit = None\<rparr>,
      Call_setWebHook, Console_polling_error unreachable] \<and>
   settled 0 (replies quiet_bot 0 [Reject conflict, Reject unreachable] started)"
  by (simp add: run_simps actor_simps)

subsection \<open>Processing errors\<close>

text \<open>
  C7 (as amended). When chain \<open>r\<close> waits for a fetch, the fetch returns a batch and the
  processor throws \<open>e\<close> at the update of index \<open>k\<close>, having accepted the earlier ones: with
  recovery disabled the cycle reports the error, once, makes no further fetch and ends;
  with recovery enabled it makes one fetch with the current offset, limit 1 and timeout
  0, and reports nothing before the reply. When that fetch succeeds, the error is
  reported, once. When it fails, a fatal error that wraps \<open>e\<close> is emitted on the channel
  \<^verbatim>\<open>error\<close>, not on \<^verbatim>\<open>polling_error\<close>, and the cycle ends as every cycle does: the
  next cycle is scheduled after \<^verbatim>\<open>interval\<close> milliseconds unless an abort was requested.
\<close>

theorem processing_error_recovery:
  "awaits_fetch r w \<and> k < length us \<and> (\<forall>j < k. processUpdate b (us ! j) = None) \<and>
   processUpdate b (us ! k) = Some e \<longrightarrow>
     (\<not> badRejection b \<longrightarrow>
        trace (respond b r (Resolve us) w) =
          trace w @ processor_calls r (take (Suc k) us) @
            [reported b (e\<lparr>processing := False\<rparr>)] @ notified r w \<and>
        settled r (respond b r (Resolve us) w)) \<and>
     (badRejection b \<longrightarrow>
        trace (respond b r (Resolve us) w) =
          trace w @ processor_calls r (take (Suc k) us) @
            [Call_getUpdates \<lparr>offset = update_id (us ! k) + 1, timeout = 0, limit = Some 1\<rparr>] \<and>
        offset (params (poll (respond b r (Resolve us) w))) = update_id (us ! k) + 1 \<and>
        promises (respond b r (Resolve us) w) ! r = Recovering (e\<lparr>processing := False\<rparr>) \<and>
        trace (respond b r (Resolve x) (respond b r (Resolve us) w)) =
          trace (respond b r (Resolve us) w) @
            [reported b (e\<lparr>processing := False\<rparr>)] @ notified r w \<and>
        trace (respond b r (Reject e2) (respond b r (Resolve us) w)) =
          trace (respond b r (Resolve us) w) @
            [Console_recovery_failed e2, Emit_error_FatalError (e\<lparr>processing := False\<rparr>)] @
            notified r w \<and>
        settled r (respond b r (Reject e2) (respond b r (Resolve us) w)) \<and>
        timers (respond b r (Reject e2) (respond b r (Resolve us) w)) =
          (if abort (poll w) then timers w
           else timers w @ [(timer_count w, interval (poll w))]))"
proof (intro impI)
  assume a: "awaits_fetch r w \<and> k < length us \<and> (\<forall>j < k. processUpdate b (us ! j) = None) \<and>
    processUpdate b (us ! k) = Some e"
  then have f: "awaits_fetch r w" and thrown: "k < length us"
    "\<forall>j < k. processUpdate b (us ! j) = None" "processUpdate b (us ! k) = Some e"
    by simp_all
  from f have len: "r < length (promises w)" by (simp add: awaits_fetch_def)
  let ?e = "e\<lparr>processing := False\<rparr>"
  let ?w1 = "snd (polling_then b r us w)"
  note t1 = polling_then_throw(2) [OF thrown, of r w]
  note o1 = polling_then_throw(3) [OF thrown, of r w]
  note fr = polling_then_frame [of b r us w]
  show "(\<not> badRejection b \<longrightarrow>
        trace (respond b r (Resolve us) w) =
          trace w @ processor_calls r (take (Suc k) us) @ [reported b ?e] @ notified r w \<and>
        settled r (respond b r (Resolve us) w)) \<and>
     (badRejection b \<longrightarrow>
        trace (respond b r (Resolve us) w) =
          trace w @ processor_calls r (take (Suc k) us) @
            [Call_getUpdates \<lparr>offset = update_id (us ! k) + 1, timeout = 0, limit = Some 1\<rparr>] \<and>
        offset (params (poll (respond b r (Resolve us) w))) = update_id (us ! k) + 1 \<and>
        promises (respond b r (Resolve us) w) ! r = Recovering ?e \<and>
        trace (respond b r (Resolve x) (respond b r (Resolve us) w)) =
          trace (respond b r (Resolve us) w) @ [reported b ?e] @ notified r w \<and>
        trace (respond b r (Reject e2) (respond b r (Resolve us) w)) =
          trace (respond b r (Resolve us) w) @
            [Console_recovery_failed e2, Emit_error_FatalError ?e] @ notified r w \<and>
        settled r (respond b r (Reject e2) (respond b r (Resolve us) w)) \<and>
        timers (respond b r (Reject e2) (respond b r (Resolve us) w)) =
          (if abort (poll w) then timers w
           else timers w @ [(timer_count w, interval (poll w))]))"
  proof (cases "badRejection b")
    case False
    let ?w2 = "emit (reported b ?e) ?w1"
    have r: "respond b r (Resolve us) w = settle r ?w2"
      using respond_throw [OF f thrown] False by simp
    have n: "notified r ?w2 = notified r w"
      by (simp add: notified_def emit_simps fr)
    have "trace (settle r ?w2) =
        trace w @ processor_calls r (take (Suc k) us) @ [reported b ?e] @ notified r w"
      by (simp add: settle_trace n emit_simps t1)
    moreover have "settled r (settle r ?w2)"
      using len by (intro settled_settle) (simp add: emit_simps fr)
    ultimately show ?thesis using False by (simp add: r)
  next
    case True
    let ?get = "Call_getUpdates \<lparr>offset = update_id (us ! k) + 1, timeout = 0, limit = Some 1\<rparr>"
    let ?w2 = "set_phase r (Recovering ?e) (emit ?get ?w1)"
    have r: "respond b r (Resolve us) w = ?w2"
      using respond_throw [OF f thrown] True by simp
    have len2: "r < length (promises ?w2)" and ph2: "promises ?w2 ! r = Recovering ?e"
      using len by (simp_all add: set_phase_simps emit_simps fr)
    have w2: "waiters ?w2 = waiters w" "timers ?w2 = timers w" "abort (poll ?w2) = abort (poll w)"
      "timer_count ?w2 = timer_count w" "interval (poll ?w2) = interval (poll w)"
      by (simp_all add: set_phase_simps emit_simps fr)
    have n: "notified r (emit ev ?w2) = notified r w"
      "notified r (emit ev' (emit ev ?w2)) = notified r w" for ev ev'
      by (simp_all add: notified_def emit_simps w2)
    have a1: "trace ?w2 = trace w @ processor_calls r (take (Suc k) us) @ [?get]"
      by (simp add: set_phase_simps emit_simps t1)
    have a2: "offset (params (poll ?w2)) = update_id (us ! k) + 1"
      by (simp add: set_phase_simps emit_simps o1)
    have a3: "trace (respond b r (Resolve x) ?w2) = trace ?w2 @ [reported b ?e] @ notified r w"
      unfolding respond_Recovering [OF len2 ph2]
      by (simp add: settle_trace handleProcessingError_reply_def error_report_eq emit_simps n)
    have a4: "trace (respond b r (Reject e2) ?w2) =
        trace ?w2 @ [Console_recovery_failed e2, Emit_error_FatalError ?e] @ notified r w"
      unfolding respond_Recovering [OF len2 ph2]
      by (simp add: settle_trace handleProcessingError_reply_def emit_simps n)
    have a5: "settled r (respond b r (Reject e2) ?w2)"
      unfolding respond_Recovering [OF len2 ph2]
      using len2 by (intro settled_settle) (simp add: handleProcessingError_reply_def emit_simps)
    have a6: "timers (respond b r (Reject e2) ?w2) =
        (if abort (poll w) then timers w else timers w @ [(timer_count w, interval (poll w))])"
      unfolding respond_Recovering [OF len2 ph2]
      by (simp add: settle_timers handleProcessingError_reply_def emit_simps w2)
    from True ph2 a1 a2 a3 a4 a5 a6 show ?thesis
      unfolding r by simp
  qed
qed

theorem processing_error_recovery_witness:
  "awaits_fetch 0 started \<and> processUpdate failing_bot (upd 5) = Some boom \<and>
   processUpdate recovering_bot (upd 5) = Some boom \<and>
   \<not> badRejection failing_bot \<and> badRejection recovering_bot \<and>
   trace (respond failing_bot 0 (Resolve [upd 5, upd 6]) started) =
     trace started @ [Call_processUpdate 0 (upd 5) 6, Emit_polling_error boom] \<and>
   trace (respond recovering_bot 0 (Resolve [upd 5, upd 6]) started) =
     trace started @ [Call_processUpdate 0 (upd 5) 6,
       Call_getUpdates \<lparr>offset = 6, timeout = 0, limit = Some 1\<rparr>] \<and>
   trace (respond recovering_bot 0 (Reject unreachable)
            (respond recovering_bot 0 (Resolve [upd 5, upd 6]) started)) =
     trace started @ [Call_processUpdate 0 (upd 5) 6,
       Call_getUpdates \<lparr>offset = 6, timeout = 0, limit = Some 1\<rparr>,
       Console_recovery_failed unreachable, Emit_error_FatalError boom] \<and>
   timers (respond recovering_bot 0 (Reject unreachable)
            (respond recovering_bot 0 (Resolve [upd 5, upd 6]) started)) = [(0, 300)]"
proof -
  have h1: "awaits_fetch 0 started \<and> 0 < length [upd 5, upd 6] \<and>
      (\<forall>j < 0. processUpdate failing_bot ([upd 5, upd 6] ! j) = None) \<and>
      processUpdate failing_bot ([upd 5, upd 6] ! 0) = Some boom"
    by (simp add: awaits_fetch_started failing_bot_def rejecting_def)
  have h2: "awaits_fetch 0 started \<and> 0 < length [upd 5, upd 6] \<and>
      (\<forall>j < 0. processUpdate recovering_bot ([upd 5, upd 6] ! j) = None) \<and>
      processUpdate recovering_bot ([upd 5, upd 6] ! 0) = Some boom"
    by (simp add: awaits_fetch_started recovering_bot_def rejecting_def)
  have b: "\<not> badRejection failing_bot" "badRejection recovering_bot"
    by (simp_all add: failing_bot_def recovering_bot_def)
  have c: "reported failing_bot boom = Emit_polling_error boom"
    "boom\<lparr>processing := False\<rparr> = boom" "notified 0 started = []"
    "processor_calls 0 [upd 5] = [Call_processUpdate 0 (upd 5) 6]"
    "update_id (upd 5) = 5"
    "\<not> abort (poll started)" "timers started = []" "timer_count started = 0"
    "interval (poll started) = 300"
    by (simp_all add: reported_def failing_bot_def boom_def notified_def started_eq
        processor_calls_def upd_def)
  note f = processing_error_recovery [of 0 started 0 "[upd 5, upd 6]" failing_bot boom "[]"
      unreachable, THEN mp, OF h1, THEN conjunct1, THEN mp, OF b(1)]
  note g = processing_error_recovery [of 0 started 0 "[upd 5, upd 6]" recovering_bot boom "[]"
      unreachable, THEN mp, OF h2, THEN conjunct2, THEN mp, OF b(2)]
  from f have f': "trace (respond failing_bot 0 (Resolve [upd 5, upd 6]) started) =
          trace started @ processor_calls 0 (take (Suc 0) [upd 5, upd 6]) @
            [reported failing_bot (boom\<lparr>processing := False\<rparr>)] @ notified 0 started"
    by (elim conjE)
  from g have g1: "trace (respond recovering_bot 0 (Resolve [upd 5, upd 6]) started) =
          trace started @ processor_calls 0 (take (Suc 0) [upd 5, upd 6]) @
            [Call_getUpdates \<lparr>offset = update_id ([upd 5, upd 6] ! 0) + 1, timeout = 0, limit = Some 1\<rparr>]"
    by (elim conjE)
  from g have g2: "trace (respond recovering_bot 0 (Reject unreachable)
            (respond recovering_bot 0 (Resolve [upd 5, upd 6]) started)) =
          trace (respond recovering_bot 0 (Resolve [upd 5, upd 6]) started) @
            [Console_recovery_failed unreachable, Emit_error_FatalError (boom\<lparr>processing := False\<rparr>)] @
            notified 0 started"
    by (elim conjE)
  from g have g3: "timers (respond recovering_bot 0 (Reject unreachable)
            (respond recovering_bot 0 (Resolve [upd 5, upd 6]) started)) =
          (if abort (poll started) then timers started
           else timers started @ [(timer_count started, interval (poll started))])"
    by (elim conjE)
  have d: "awaits_fetch 0 started \<and> processUpdate failing_bot (upd 5) = Some boom \<and>
      processUpdate recovering_bot (upd 5) = Some boom"
    using h1 h2 by simp
  show ?thesis
    unfolding g2 g1 g3 f' using d b
    by (simp add: c)
qed

text \<open>
  C7 as stated fails when an abort was requested while the cycle is in flight: the
  recovery fetch fails, the fatal error is emitted, and no next cycle is scheduled.
\<close>

theorem fatal_error_under_abort:
  "awaits_fetch 0 stopping \<and> abort (poll stopping) \<and> badRejection recovering_bot \<and>
   processUpdate recovering_bot (upd 5) = Some boom \<and>
   trace (replies recovering_bot 0 [Resolve [upd 5], Reject unreachable] stopping) =
     [Emit_polling_started, Call_getUpdates \<lparr>offset = 0, timeout = 10, limit = None\<rparr>,
      Call_processUpdate 0 (upd 5) 6,
      Call_getUpdates \<lparr>offset = 6, timeout = 0, limit = Some 1\<rparr>,
      Console_recovery_failed unreachable, Emit_error_FatalError boom, Emit_polling_stopped] \<and>
   settled 0 (replies recovering_bot 0 [Resolve [upd 5], Reject unreachable] stopping) \<and>
   timers (replies recovering_bot 0 [Resolve [upd 5], Reject unreachable] stopping) = [] \<and>
   chains (replies recovering_bot 0 [Resolve [upd 5], Reject unreachable] stopping) = 0"
  by (simp add: stopping_eq awaits_fetch_def chains_def run_simps actor_simps)

subsection \<open>The processor calls of a chain\<close>

lemma processed_by_emit:
  "(\<And>u k. e \<noteq> Call_processUpdate r u k) \<Longrightarrow> processed_by r (emit e w) = processed_by r w"
  by (cases e) (auto simp: processed_by_def emit_def)

lemma processed_by_settle: "processed_by r (settle r' w) = processed_by r w"
  by (simp add: processed_by_def settle_trace notified_def)

lemma processed_by_set_phase: "processed_by r (set_phase r' ph w) = processed_by r w"
  by (simp add: processed_by_def set_phase_def)

lemma processed_by_forEach:
  "r \<noteq> r' \<Longrightarrow> processed_by r (snd (forEach_update b r' us w)) = processed_by r w"
  by (induction us arbitrary: w)
     (simp_all add: Let_def processed_by_def emit_def split: option.splits)

lemma processed_by_polling_then:
  "r \<noteq> r' \<Longrightarrow> processed_by r (snd (polling_then b r' us w)) = processed_by r w"
  by (simp add: polling_then_def processed_by_forEach) (simp add: processed_by_def)

lemma processed_by_catch_stage:
  "processed_by r (after_catch r' (polling_catch b err w)) = processed_by r w"
  by (simp add: after_catch_polling_catch processed_by_settle processed_by_set_phase
      processed_by_emit reported_def)

lemma respond_other_chain:
  assumes "r \<noteq> r'"
  shows "processed_by r (respond b r' rep w) = processed_by r w"
proof (cases "in_flight r' w")
  case False
  then show ?thesis by (simp add: respond_not_in_flight)
next
  case True
  then have len: "r' < length (promises w)" by (simp add: in_flight_def)
  have fetched: ?thesis if "awaits_fetch r' w" "rep = Resolve us" for us
    using that assms
    by (simp add: respond_fetch_Resolve processed_by_settle processed_by_catch_stage
        processed_by_polling_then split: option.splits)
  show ?thesis
  proof (cases "promises w ! r'")
    case Fetching
    with len have f: "awaits_fetch r' w" by (simp add: awaits_fetch_def)
    show ?thesis
    proof (cases rep)
      case (Resolve us)
      with f show ?thesis by (rule fetched)
    next
      case (Reject err)
      then show ?thesis
        by (simp add: respond_Fetching_Reject [OF len Fetching] processed_by_set_phase
            unsetWebHook_def processed_by_emit processed_by_catch_stage)
    qed
  next
    case Unsetting
    show ?thesis
      by (cases rep)
         (simp_all add: respond_Unsetting_Resolve [OF len Unsetting]
            respond_Unsetting_Reject [OF len Unsetting] processed_by_set_phase
            getUpdates_call_def processed_by_emit processed_by_catch_stage)
  next
    case Refetching
    with len have f: "awaits_fetch r' w" by (simp add: awaits_fetch_def)
    show ?thesis
    proof (cases rep)
      case (Resolve us)
      with f show ?thesis by (rule fetched)
    next
      case (Reject err)
      then show ?thesis
        by (simp add: respond_Refetching_Reject [OF len Refetching] processed_by_catch_stage)
    qed
  next
    case (Recovering e)
    show ?thesis
      by (cases rep)
         (simp_all add: respond_Recovering [OF len Recovering] processed_by_settle
            handleProcessingError_reply_def error_report_eq processed_by_emit reported_def)
  next
    case Settled
    with True show ?thesis by (simp add: in_flight_def pending_simps)
  next
    case Cancelled
    with True show ?thesis by (simp add: in_flight_def pending_simps)
  qed
qed

lemma respond_promises: "\<exists>ph. promises (respond b r rep w) = (promises w)[r := ph]"
proof (cases "in_flight r w")
  case False
  then have "promises (respond b r rep w) = (promises w)[r := promises w ! r]"
    by (simp add: respond_not_in_flight)
  then show ?thesis ..
next
  case True
  from respond_shape [OF True, of b rep] show ?thesis
    by (auto simp: cycle_work_def settle_promises set_phase_simps)
qed

subsection \<open>A chain that is over stays over\<close>

lemma in_flight_frame: "promises w1 = promises w \<Longrightarrow> in_flight r w1 = in_flight r w"
  by (simp add: in_flight_def)

lemma stop_cancelling:
  assumes "lastRequest (poll w) = Some q" and "cancel options"
  shows "fst (stop options w) = Resolved"
    and "promises (snd (stop options w)) =
           (if in_flight q w then (promises w)[q := Cancelled] else promises w)"
    and "trace (snd (stop options w)) =
           trace w @ [Call_cancel q (case reason options of
                                      None \<Rightarrow> ''Polling stop''
                                    | Some s \<Rightarrow> if s = [] then ''Polling stop'' else s),
                      Emit_polling_stopped]"
    and "poll (snd (stop options w)) = (poll w)\<lparr>lastRequest := None, isPollingActive := False\<rparr>"
    and "waiters (snd (stop options w)) = waiters w"
    and "timers (snd (stop options w)) =
           (case pollingTimeout (poll w) of
              None \<Rightarrow> timers w
            | Some h \<Rightarrow> filter (\<lambda>t. fst t \<noteq> h) (timers w))"
    and "timer_count (snd (stop options w)) = timer_count w"
  using assms
  by (auto simp: stop_def Let_def promise_cancel_def clearTimeout_def in_flight_def
      emit_def set_phase_def split: option.splits)

lemma stop_graceful:
  assumes "lastRequest (poll w) = Some q" and "\<not> cancel options"
  shows "fst (stop options w) = Settles_with q"
    and "promises (snd (stop options w)) = promises w"
    and "trace (snd (stop options w)) =
           (if settled q w then trace w @ [Emit_polling_stopped] else trace w)"
    and "poll (snd (stop options w)) =
           (if settled q w then (poll w)\<lparr>lastRequest := None, abort := False, isPollingActive := False\<rparr>
            else (poll w)\<lparr>lastRequest := None, abort := True\<rparr>)"
    and "waiters (snd (stop options w)) = (if settled q w then waiters w else waiters w @ [q])"
    and "timers (snd (stop options w)) =
           (case pollingTimeout (poll w) of
              None \<Rightarrow> timers w
            | Some h \<Rightarrow> filter (\<lambda>t. fst t \<noteq> h) (timers w))"
    and "timer_count (snd (stop options w)) = timer_count w"
  using assms
  by (simp_all add: stop_def Let_def promise_finally_def clearTimeout_def settled_def
      stop_finally_def emit_def split: option.splits)

lemma stop_idle: "lastRequest (poll w) = None \<Longrightarrow> stop options w = (Resolved, w)"
  by (simp add: stop_def)

lemma dead_stop:
  assumes "r < length (promises w)" and "\<not> pending (promises w ! r)"
  shows "r < length (promises (snd (stop options w))) \<and>
         promises (snd (stop options w)) ! r = promises w ! r \<and>
         processed_by r (snd (stop options w)) = processed_by r w"
proof (cases "lastRequest (poll w)")
  case None
  then show ?thesis using assms by (simp add: stop_idle)
next
  case (Some q)
  show ?thesis
  proof (cases "cancel options")
    case True
    from assms have "in_flight q w \<Longrightarrow> q \<noteq> r" by (auto simp: in_flight_def)
    with assms show ?thesis
      by (auto simp: stop_cancelling [OF Some True] processed_by_def)
  next
    case False
    with assms show ?thesis
      by (simp add: stop_graceful [OF Some False] processed_by_def)
  qed
qed

lemma dead_polling_call:
  assumes "r < length (promises w)"
  shows "r < length (promises (snd (polling_call w))) \<and>
         promises (snd (polling_call w)) ! r = promises w ! r \<and>
         processed_by r (snd (polling_call w)) = processed_by r w"
  using assms by (simp add: polling_call_simps nth_append processed_by_def)

lemma dead_start:
  assumes "r < length (promises w)" and "\<not> pending (promises w ! r)"
  shows "r < length (promises (snd (start options w))) \<and>
         promises (snd (start options w)) ! r = promises w ! r \<and>
         processed_by r (snd (start options w)) = processed_by r w"
proof (cases "isPollingActive (poll w)")
  case False
  let ?w2 = "(emit Emit_polling_started w)\<lparr>poll := (poll (emit Emit_polling_started w))\<lparr>isPollingActive := True\<rparr>\<rparr>"
  have s: "snd (start options w) = snd (polling_call ?w2)"
    using False by (simp add: start_def Let_def split: prod.splits)
  have "r < length (promises ?w2)" "promises ?w2 ! r = promises w ! r"
    "processed_by r ?w2 = processed_by r w"
    using assms by (simp_all add: emit_def processed_by_def)
  with dead_polling_call [of r ?w2] show ?thesis unfolding s by simp
next
  case True
  show ?thesis
  proof (cases "restart options")
    case False
    with True show ?thesis using assms by (simp add: start_def)
  next
    case restart: True
    let ?w1 = "emit Emit_polling_restart w"
    let ?w2 = "snd (stop \<lparr>cancel = True, reason = Some ''Polling restart''\<rparr> ?w1)"
    have s: "snd (start options w) = snd (polling_call ?w2)"
      using True restart by (simp add: start_def Let_def split: prod.splits)
    have w1: "r < length (promises ?w1)" "\<not> pending (promises ?w1 ! r)"
      "promises ?w1 ! r = promises w ! r" "processed_by r ?w1 = processed_by r w"
      using assms by (simp_all add: emit_def processed_by_def)
    from dead_stop [OF w1(1,2)] w1(3,4)
    have w2: "r < length (promises ?w2)" "promises ?w2 ! r = promises w ! r"
      "processed_by r ?w2 = processed_by r w"
      by simp_all
    with dead_polling_call [of r ?w2] show ?thesis unfolding s by simp
  qed
qed

lemma dead_fire:
  assumes "r < length (promises w)"
  shows "r < length (promises (fire h w)) \<and>
         promises (fire h w) ! r = promises w ! r \<and>
         processed_by r (fire h w) = processed_by r w"
proof (cases "h \<in> fst ` set (timers w)")
  case False
  with assms show ?thesis by (simp add: fire_def)
next
  case True
  let ?w1 = "w\<lparr>timers := filter (\<lambda>t. fst t \<noteq> h) (timers w)\<rparr>"
  have s: "fire h w = snd (polling_call ?w1)" using True by (simp add: fire_def)
  have "r < length (promises ?w1)" "promises ?w1 ! r = promises w ! r"
    "processed_by r ?w1 = processed_by r w"
    using assms by (simp_all add: processed_by_def)
  with dead_polling_call [of r ?w1] show ?thesis unfolding s by simp
qed

lemma dead_respond:
  assumes "r < length (promises w)" and "\<not> pending (promises w ! r)"
  shows "r < length (promises (respond b r' rep w)) \<and>
         promises (respond b r' rep w) ! r = promises w ! r \<and>
         processed_by r (respond b r' rep w) = processed_by r w"
proof (cases "r' = r")
  case True
  with assms have "\<not> in_flight r' w" by (simp add: in_flight_def)
  with assms show ?thesis by (simp add: respond_not_in_flight)
next
  case False
  from respond_promises [of b r' rep w] obtain ph
    where "promises (respond b r' rep w) = (promises w)[r' := ph]" ..
  with False assms respond_other_chain [of r r' b rep w] show ?thesis by simp
qed

lemma dead_step:
  assumes "r < length (promises w)" and "\<not> pending (promises w ! r)"
  shows "r < length (promises (step b a w)) \<and>
         promises (step b a w) ! r = promises w ! r \<and>
         processed_by r (step b a w) = processed_by r w"
  by (cases a)
     (simp_all add: step_def dead_start [OF assms] dead_stop [OF assms] dead_respond [OF assms]
        dead_fire [OF assms(1)])

lemma dead_run:
  assumes "r < length (promises w)" and "\<not> pending (promises w ! r)"
  shows "r < length (promises (run acts w)) \<and>
         promises (run acts w) ! r = promises w ! r \<and>
         processed_by r (run acts w) = processed_by r w"
  using assms
proof (induction acts arbitrary: w)
  case Nil
  then show ?case by (simp add: run_def)
next
  case (Cons ba acts)
  let ?w1 = "step (fst ba) (snd ba) w"
  from dead_step [OF Cons.prems, of "fst ba" "snd ba"]
  have s: "r < length (promises ?w1)" "promises ?w1 ! r = promises w ! r"
    "processed_by r ?w1 = processed_by r w"
    by simp_all
  with Cons.prems have "\<not> pending (promises ?w1 ! r)" by simp
  from Cons.IH [OF s(1) this] s show ?case by (simp add: run_def)
qed

subsection \<open>The handle and the callbacks in reachable worlds\<close>

lemma respond_frame:
  "length (promises (respond b r rep w)) = length (promises w) \<and>
   lastRequest (poll (respond b r rep w)) = lastRequest (poll w) \<and>
   set (waiters (respond b r rep w)) \<subseteq> set (waiters w)"
proof (cases "in_flight r w")
  case False
  then show ?thesis by (simp add: respond_not_in_flight)
next
  case True
  from respond_shape [OF True, of b rep] show ?thesis
    by (auto simp: cycle_work_def settle_promises settle_lastRequest settle_waiters
        set_phase_simps)
qed

lemma handles_sound_iff:
  "handles_sound w \<longleftrightarrow>
     (\<forall>q \<in> set (waiters w). q < length (promises w)) \<and>
     (\<forall>r. lastRequest (poll w) = Some r \<longrightarrow> r < length (promises w) \<and> r \<notin> set (waiters w))"
  by (auto simp: handles_sound_def list_all_iff split: option.splits)

lemma handles_sound_new_world: "handles_sound (new_world setting)"
  by (simp add: handles_sound_def new_world_def constructor_def Let_def)

lemma handles_sound_polling_call:
  assumes "\<forall>q \<in> set (waiters w). q < length (promises w)"
  shows "handles_sound (snd (polling_call w))"
  using assms by (fastforce simp: handles_sound_iff polling_call_simps)

lemma handles_sound_stop:
  assumes "handles_sound w"
  shows "handles_sound (snd (stop options w))"
proof (cases "lastRequest (poll w)")
  case None
  with assms show ?thesis by (simp add: stop_idle)
next
  case (Some q)
  with assms have q: "q < length (promises w)"
    and ws: "\<forall>q \<in> set (waiters w). q < length (promises w)"
    by (simp_all add: handles_sound_iff)
  show ?thesis
  proof (cases "cancel options")
    case True
    from ws show ?thesis
      by (simp add: handles_sound_iff stop_cancelling [OF Some True])
  next
    case False
    from ws q show ?thesis
      by (simp add: handles_sound_iff stop_graceful [OF Some False])
  qed
qed

lemma handles_sound_start:
  assumes "handles_sound w"
  shows "handles_sound (snd (start options w))"
proof -
  have e: "handles_sound (emit ev w)" for ev
    using assms by (simp add: handles_sound_iff emit_simps)
  show ?thesis
  proof (cases "isPollingActive (poll w)")
    case False
    let ?w2 = "(emit Emit_polling_started w)\<lparr>poll := (poll (emit Emit_polling_started w))\<lparr>isPollingActive := True\<rparr>\<rparr>"
    have s: "snd (start options w) = snd (polling_call ?w2)"
      using False by (simp add: start_def Let_def split: prod.splits)
    from assms have "\<forall>q \<in> set (waiters ?w2). q < length (promises ?w2)"
      by (simp add: handles_sound_iff emit_def)
    then show ?thesis unfolding s by (rule handles_sound_polling_call)
  next
    case True
    show ?thesis
    proof (cases "restart options")
      case False
      with True assms show ?thesis by (simp add: start_def)
    next
      case restart: True
      let ?w2 = "snd (stop \<lparr>cancel = True, reason = Some ''Polling restart''\<rparr>
                        (emit Emit_polling_restart w))"
      have s: "snd (start options w) = snd (polling_call ?w2)"
        using True restart by (simp add: start_def Let_def split: prod.splits)
      from handles_sound_stop [OF e] have "handles_sound ?w2" .
      then have "\<forall>q \<in> set (waiters ?w2). q < length (promises ?w2)"
        by (simp add: handles_sound_iff)
      then show ?thesis unfolding s by (rule handles_sound_polling_call)
    qed
  qed
qed

lemma handles_sound_fire:
  assumes "handles_sound w"
  shows "handles_sound (fire h w)"
proof (cases "h \<in> fst ` set (timers w)")
  case False
  with assms show ?thesis by (simp add: fire_def)
next
  case True
  let ?w1 = "w\<lparr>timers := filter (\<lambda>t. fst t \<noteq> h) (timers w)\<rparr>"
  have s: "fire h w = snd (polling_call ?w1)" using True by (simp add: fire_def)
  from assms have "\<forall>q \<in> set (waiters ?w1). q < length (promises ?w1)"
    by (simp add: handles_sound_iff)
  then show ?thesis unfolding s by (rule handles_sound_polling_call)
qed

lemma handles_sound_respond:
  assumes "handles_sound w"
  shows "handles_sound (respond b r rep w)"
  using assms respond_frame [of b r rep w]
  by (auto simp: handles_sound_iff)

lemma handles_sound_step: "handles_sound w \<Longrightarrow> handles_sound (step b a w)"
  by (cases a)
     (simp_all add: step_def handles_sound_start handles_sound_stop handles_sound_respond
        handles_sound_fire)

lemma handles_sound_run: "handles_sound w \<Longrightarrow> handles_sound (run acts w)"
  by (induction acts arbitrary: w) (simp_all add: run_def handles_sound_step)

lemma reachable_handle:
  "lastRequest (poll (run acts (new_world setting))) = Some r \<Longrightarrow>
   r \<notin> set (waiters (run acts (new_world setting)))"
  using handles_sound_run [OF handles_sound_new_world, of acts setting]
  by (simp add: handles_sound_iff)

subsection \<open>Stop with cancel\<close>

text \<open>
  C3 (as amended). When \<^verbatim>\<open>_lastRequest\<close> holds the chain \<open>r\<close> of a cycle in flight, \<^verbatim>\<open>stop\<close>
  with a truthy \<^verbatim>\<open>cancel\<close> option cancels that chain, with the reason given or
  \<^verbatim>\<open>'Polling stop'\<close>, notifies the observers that polling stopped, marks the controller
  inactive and returns a resolved outcome, not one that waits for the chain. Whatever
  happens afterwards (replies of the bot to any chain, timers, further calls of \<^verbatim>\<open>start\<close>
  and \<^verbatim>\<open>stop\<close>), the chain stays cancelled, it is never in flight again and no call of
  the processor is ever made on its behalf.
\<close>

theorem cancelling_stop:
  "lastRequest (poll w) = Some r \<and> in_flight r w \<and> cancel options \<longrightarrow>
     fst (stop options w) = Resolved \<and>
     \<not> isPollingActive (poll (snd (stop options w))) \<and>
     trace (snd (stop options w)) =
       trace w @ [Call_cancel r (case reason options of
                                  None \<Rightarrow> ''Polling stop''
                                | Some s \<Rightarrow> if s = [] then ''Polling stop'' else s),
                  Emit_polling_stopped] \<and>
     promises (snd (stop options w)) = (promises w)[r := Cancelled] \<and>
     promises (run acts (snd (stop options w))) ! r = Cancelled \<and>
     \<not> in_flight r (run acts (snd (stop options w))) \<and>
     processed_by r (run acts (snd (stop options w))) = processed_by r w"
proof (intro impI conjI)
  assume a: "lastRequest (poll w) = Some r \<and> in_flight r w \<and> cancel options"
  then have l: "lastRequest (poll w) = Some r" and f: "in_flight r w" and c: "cancel options"
    by simp_all
  from f have len: "r < length (promises w)" by (simp add: in_flight_def)
  let ?w1 = "snd (stop options w)"
  note s = stop_cancelling [OF l c]
  show "fst (stop options w) = Resolved" by (rule s(1))
  show "\<not> isPollingActive (poll ?w1)" by (simp add: s(4))
  show "trace ?w1 =
        trace w @ [Call_cancel r (case reason options of
                                   None \<Rightarrow> ''Polling stop''
                                 | Some s \<Rightarrow> if s = [] then ''Polling stop'' else s),
                   Emit_polling_stopped]"
    by (rule s(3))
  show p: "promises ?w1 = (promises w)[r := Cancelled]"
    using f by (simp add: s(2))
  from len have d: "r < length (promises ?w1)" "\<not> pending (promises ?w1 ! r)"
    and e: "promises ?w1 ! r = Cancelled"
    by (simp_all add: p pending_simps)
  note over = dead_run [OF d, of acts]
  from over e show "promises (run acts ?w1) ! r = Cancelled" by simp
  from over d(2) show "\<not> in_flight r (run acts ?w1)"
    by (simp add: in_flight_def)
  have "processed_by r ?w1 = processed_by r w"
    by (simp add: processed_by_def s(3))
  with over show "processed_by r (run acts ?w1) = processed_by r w"
    by simp
qed

theorem cancelling_stop_witness:
  "lastRequest (poll started) = Some 0 \<and> in_flight 0 started \<and> cancel cancelling \<and>
   fst (stop cancelling started) = Resolved \<and>
   \<not> isPollingActive (poll (snd (stop cancelling started))) \<and>
   trace (snd (stop cancelling started)) =
     trace started @ [Call_cancel 0 ''Polling stop'', Emit_polling_stopped] \<and>
   promises (snd (stop cancelling started)) = [Cancelled] \<and>
   processed_by 0
     (run [(quiet_bot, Respond 0 (Resolve [upd 5])), (quiet_bot, Stop cancelling)]
        (snd (stop cancelling started))) = []"
proof -
  have h: "lastRequest (poll started) = Some 0 \<and> in_flight 0 started \<and> cancel cancelling"
    by (simp add: started_eq in_flight_def pending_def cancelling_def)
  have c: "processed_by 0 started = []" "reason cancelling = None"
    "(promises started)[0 := Cancelled] = [Cancelled]"
    by (simp_all add: processed_by_def started_eq cancelling_def)
  from cancelling_stop [of started 0 cancelling
      "[(quiet_bot, Respond 0 (Resolve [upd 5])), (quiet_bot, Stop cancelling)]",
      THEN mp, OF h] h
  show ?thesis by (simp add: c)
qed

text \<open>
  C3 as stated fails when a cycle is in flight but \<^verbatim>\<open>_lastRequest\<close> is empty, as it is
  after a \<^verbatim>\<open>stop\<close> without cancel that still waits for that cycle: \<^verbatim>\<open>stop\<close> with cancel
  then returns at once and changes nothing, so no chain is cancelled, the active flag
  stays set, nothing is notified, and the batch that arrives is processed.
\<close>

theorem cancel_after_graceful_stop:
  "in_flight 0 stopping \<and> lastRequest (poll stopping) = None \<and> cancel cancelling \<and>
   stop cancelling stopping = (Resolved, stopping) \<and>
   isPollingActive (poll (snd (stop cancelling stopping))) \<and>
   promises (snd (stop cancelling stopping)) = [Fetching] \<and>
   processed_by 0 (snd (stop cancelling stopping)) = [] \<and>
   processed_by 0 (respond quiet_bot 0 (Resolve [upd 5]) (snd (stop cancelling stopping))) =
     [Call_processUpdate 0 (upd 5) 6]"
proof -
  have s: "stop cancelling stopping = (Resolved, stopping)"
    by (simp add: stop_idle stopping_eq)
  show ?thesis
    unfolding s
    by (simp add: stopping_eq cancelling_def in_flight_def pending_def processed_by_def
        run_simps actor_simps)
qed

subsection \<open>Stop without cancel\<close>

lemma stopped_count_snoc:
  "trace w1 = trace w @ [Emit_polling_stopped] \<Longrightarrow> stopped_count w1 = Suc (stopped_count w)"
  by (simp add: stopped_count_def)

text \<open>While the stop waits: the cycle is in flight, the abort flag is set, the callback
  of the stop is registered once, and nothing was notified.\<close>

lemma waiting_step:
  assumes "in_flight r w" and "abort (poll w)" and "count_list (waiters w) r = 1"
  shows "(in_flight r (respond b r rep w) \<and> abort (poll (respond b r rep w)) \<and>
          count_list (waiters (respond b r rep w)) r = 1 \<and>
          isPollingActive (poll (respond b r rep w)) = isPollingActive (poll w) \<and>
          stopped_count (respond b r rep w) = stopped_count w \<and>
          timers (respond b r rep w) = timers w) \<or>
         (settled r (respond b r rep w) \<and> \<not> abort (poll (respond b r rep w)) \<and>
          \<not> isPollingActive (poll (respond b r rep w)) \<and>
          stopped_count (respond b r rep w) = Suc (stopped_count w) \<and>
          last (trace (respond b r rep w)) = Emit_polling_stopped \<and>
          timers (respond b r rep w) = timers w)"
proof -
  from assms have len: "r < length (promises w)" by (simp add: in_flight_def)
  from respond_shape [OF assms(1), of b rep]
  consider (ends) w1 where "cycle_work w w1" "respond b r rep w = settle r w1"
    | (goes_on) w1 ph where "cycle_work w w1" "pending ph"
        "replies_left ph < replies_left (promises w ! r)" "respond b r rep w = set_phase r ph w1"
    by blast
  then show ?thesis
  proof cases
    case ends
    from ends(1) assms len have w1: "r < length (promises w1)" "abort (poll w1)"
      "count_list (waiters w1) r = 1" "timers w1 = timers w" "stopped_count w1 = stopped_count w"
      by (simp_all add: cycle_work_def)
    from w1(3) have m: "r \<in> set (waiters w1)"
      by (metis count_list_0_iff zero_neq_one)
    from w1(3) have n: "notified r w1 = [Emit_polling_stopped]"
      by (simp add: notified_def)
    have "settled r (settle r w1)" using w1(1) by (rule settled_settle)
    moreover have "trace (settle r w1) = trace w1 @ [Emit_polling_stopped]"
      by (simp add: settle_trace n)
    moreover from this have "stopped_count (settle r w1) = Suc (stopped_count w1)"
      by (rule stopped_count_snoc)
    ultimately show ?thesis
      using w1 m by (simp add: ends(2) settle_abort settle_active settle_timers)
  next
    case goes_on
    with assms len show ?thesis
      by (simp add: in_flight_def set_phase_simps cycle_work_def stopped_count_def)
  qed
qed

lemma waiting_replies:
  assumes "in_flight r w" and "abort (poll w)" and "count_list (waiters w) r = 1"
  shows "(in_flight r (replies b r reps w) \<and> abort (poll (replies b r reps w)) \<and>
          isPollingActive (poll (replies b r reps w)) = isPollingActive (poll w) \<and>
          stopped_count (replies b r reps w) = stopped_count w \<and>
          timers (replies b r reps w) = timers w) \<or>
         (settled r (replies b r reps w) \<and> \<not> abort (poll (replies b r reps w)) \<and>
          \<not> isPollingActive (poll (replies b r reps w)) \<and>
          stopped_count (replies b r reps w) = Suc (stopped_count w) \<and>
          last (trace (replies b r reps w)) = Emit_polling_stopped \<and>
          timers (replies b r reps w) = timers w)"
  using assms
proof (induction reps arbitrary: w)
  case Nil
  then show ?case by (simp add: replies_def)
next
  case (Cons rep reps)
  let ?w1 = "respond b r rep w"
  have unfold: "replies b r (rep # reps) w = replies b r reps ?w1"
    by (simp add: replies_def)
  from waiting_step [OF Cons.prems, of b rep]
  consider (waits) "in_flight r ?w1" "abort (poll ?w1)" "count_list (waiters ?w1) r = 1"
      "isPollingActive (poll ?w1) = isPollingActive (poll w)"
      "stopped_count ?w1 = stopped_count w" "timers ?w1 = timers w"
    | (over) "settled r ?w1" "\<not> abort (poll ?w1)" "\<not> isPollingActive (poll ?w1)"
      "stopped_count ?w1 = Suc (stopped_count w)" "last (trace ?w1) = Emit_polling_stopped"
      "timers ?w1 = timers w"
    by blast
  then show ?case
  proof cases
    case waits
    from Cons.IH [OF waits(1-3)] waits(4-6) show ?thesis
      unfolding unfold by simp
  next
    case over
    have "replies b r reps ?w1 = ?w1"
      using settled_not_in_flight [OF over(1)]
      by (induction reps) (simp_all add: replies_def respond_not_in_flight)
    with over show ?thesis unfolding unfold by simp
  qed
qed

lemma stop_then_replies:
  "(lastRequest (poll (run acts (new_world setting))) = Some q \<longrightarrow>
      q \<notin> set (waiters (run acts (new_world setting)))) \<and>
   (lastRequest (poll w) = Some r \<and> in_flight r w \<and> r \<notin> set (waiters w) \<and>
    \<not> cancel options \<longrightarrow>
      fst (stop options w) = Settles_with r \<and>
      abort (poll (snd (stop options w))) \<and>
      isPollingActive (poll (snd (stop options w))) = isPollingActive (poll w) \<and>
      trace (snd (stop options w)) = trace w \<and>
      in_flight r (snd (stop options w)) \<and>
      (in_flight r (replies b r reps (snd (stop options w))) \<longrightarrow>
         abort (poll (replies b r reps (snd (stop options w)))) \<and>
         isPollingActive (poll (replies b r reps (snd (stop options w)))) =
           isPollingActive (poll w) \<and>
         stopped_count (replies b r reps (snd (stop options w))) = stopped_count w) \<and>
      (\<not> in_flight r (replies b r reps (snd (stop options w))) \<longrightarrow>
         settled r (replies b r reps (snd (stop options w))) \<and>
         \<not> abort (poll (replies b r reps (snd (stop options w)))) \<and>
         \<not> isPollingActive (poll (replies b r reps (snd (stop options w)))) \<and>
         stopped_count (replies b r reps (snd (stop options w))) = Suc (stopped_count w) \<and>
         last (trace (replies b r reps (snd (stop options w)))) = Emit_polling_stopped \<and>
         timers (replies b r reps (snd (stop options w))) = timers (snd (stop options w))) \<and>
      settled r (replies b r [rep1, rep2, rep3, rep4] (snd (stop options w))) \<and>
      (awaits_fetch r w \<and> (\<forall>u \<in> set us. processUpdate b u = None) \<longrightarrow>
         trace (respond b r (Resolve us) (snd (stop options w))) =
           trace w @ processor_calls r us @ [Emit_polling_stopped]))"
proof (rule conjI)
  show "lastRequest (poll (run acts (new_world setting))) = Some q \<longrightarrow>
      q \<notin> set (waiters (run acts (new_world setting)))"
    using reachable_handle [of acts setting q] by blast
next
  let ?w1 = "snd (stop options w)"
  let ?w2 = "replies b r reps ?w1"
  show "lastRequest (poll w) = Some r \<and> in_flight r w \<and> r \<notin> set (waiters w) \<and>
    \<not> cancel options \<longrightarrow>
      fst (stop options w) = Settles_with r \<and>
      abort (poll ?w1) \<and>
      isPollingActive (poll ?w1) = isPollingActive (poll w) \<and>
      trace ?w1 = trace w \<and>
      in_flight r ?w1 \<and>
      (in_flight r ?w2 \<longrightarrow>
         abort (poll ?w2) \<and> isPollingActive (poll ?w2) = isPollingActive (poll w) \<and>
         stopped_count ?w2 = stopped_count w) \<and>
      (\<not> in_flight r ?w2 \<longrightarrow>
         settled r ?w2 \<and> \<not> abort (poll ?w2) \<and> \<not> isPollingActive (poll ?w2) \<and>
         stopped_count ?w2 = Suc (stopped_count w) \<and>
         last (trace ?w2) = Emit_polling_stopped \<and>
         timers ?w2 = timers ?w1) \<and>
      settled r (replies b r [rep1, rep2, rep3, rep4] ?w1) \<and>
      (awaits_fetch r w \<and> (\<forall>u \<in> set us. processUpdate b u = None) \<longrightarrow>
         trace (respond b r (Resolve us) ?w1) =
           trace w @ processor_calls r us @ [Emit_polling_stopped])"
  proof (intro impI)
    assume a: "lastRequest (poll w) = Some r \<and> in_flight r w \<and> r \<notin> set (waiters w) \<and>
      \<not> cancel options"
    then have l: "lastRequest (poll w) = Some r" and f: "in_flight r w"
      and nw: "r \<notin> set (waiters w)" and nc: "\<not> cancel options"
      by simp_all
    from f have ns: "\<not> settled r w" using settled_not_in_flight by blast
    note s = stop_graceful [OF l nc]
    have w1: "fst (stop options w) = Settles_with r" "abort (poll ?w1)"
      "isPollingActive (poll ?w1) = isPollingActive (poll w)" "trace ?w1 = trace w"
      "promises ?w1 = promises w" "waiters ?w1 = waiters w @ [r]"
      using ns by (simp_all add: s)
    from w1(5) f have f1: "in_flight r ?w1" by (simp add: in_flight_def)
    from w1(6) nw have c1: "count_list (waiters ?w1) r = 1" by simp
    have sc: "stopped_count ?w1 = stopped_count w"
      by (simp add: stopped_count_def w1(4))
    from waiting_replies [OF f1 w1(2) c1, of b reps] settled_not_in_flight [of r ?w2]
    have run: "(in_flight r ?w2 \<longrightarrow>
         abort (poll ?w2) \<and> isPollingActive (poll ?w2) = isPollingActive (poll w) \<and>
         stopped_count ?w2 = stopped_count w) \<and>
      (\<not> in_flight r ?w2 \<longrightarrow>
         settled r ?w2 \<and> \<not> abort (poll ?w2) \<and> \<not> isPollingActive (poll ?w2) \<and>
         stopped_count ?w2 = Suc (stopped_count w) \<and>
         last (trace ?w2) = Emit_polling_stopped \<and>
         timers ?w2 = timers ?w1)"
      unfolding sc w1(3) by blast
    have four: "settled r (replies b r [rep1, rep2, rep3, rep4] ?w1)"
      by (rule four_replies_settle [OF f1])
    have batch: "trace (respond b r (Resolve us) ?w1) =
           trace w @ processor_calls r us @ [Emit_polling_stopped]"
      if "awaits_fetch r w" "\<forall>u \<in> set us. processUpdate b u = None"
    proof -
      from that(1) w1(5) have af: "awaits_fetch r ?w1" by (simp add: awaits_fetch_def)
      let ?w3 = "snd (polling_then b r us ?w1)"
      have "waiters ?w3 = waiters ?w1" by (simp add: polling_then_frame)
      with c1 have "notified r ?w3 = [Emit_polling_stopped]" by (simp add: notified_def)
      then show ?thesis
        by (simp add: respond_all_ok(1) [OF af that(2)] settle_trace
            respond_all_ok(2) [OF af that(2)] w1(4))
    qed
    from w1(1-4) f1 run four batch
    show "fst (stop options w) = Settles_with r \<and>
      abort (poll ?w1) \<and>
      isPollingActive (poll ?w1) = isPollingActive (poll w) \<and>
      trace ?w1 = trace w \<and>
      in_flight r ?w1 \<and>
      (in_flight r ?w2 \<longrightarrow>
         abort (poll ?w2) \<and> isPollingActive (poll ?w2) = isPollingActive (poll w) \<and>
         stopped_count ?w2 = stopped_count w) \<and>
      (\<not> in_flight r ?w2 \<longrightarrow>
         settled r ?w2 \<and> \<not> abort (poll ?w2) \<and> \<not> isPollingActive (poll ?w2) \<and>
         stopped_count ?w2 = Suc (stopped_count w) \<and>
         last (trace ?w2) = Emit_polling_stopped \<and>
         timers ?w2 = timers ?w1) \<and>
      settled r (replies b r [rep1, rep2, rep3, rep4] ?w1) \<and>
      (awaits_fetch r w \<and> (\<forall>u \<in> set us. processUpdate b u = None) \<longrightarrow>
         trace (respond b r (Resolve us) ?w1) =
           trace w @ processor_calls r us @ [Emit_polling_stopped])"
      by blast
  qed
qed

text \<open>The same under every reply to any chain and every timer: as long as neither \<^verbatim>\<open>start\<close>
  nor \<^verbatim>\<open>stop\<close> is called, the stop either still waits for its cycle, with the flags as it
  left them, or its callback has run, once.\<close>

lemma count_list_replicate_same: "count_list (replicate k x) x = k"
  by (induction k) simp_all

lemma stopped_count_settle:
  "stopped_count (settle r w) = stopped_count w + count_list (waiters w) r"
  by (simp add: stopped_count_def settle_trace notified_def count_list_replicate_same)

lemma last_trace_settle:
  "r \<in> set (waiters w) \<Longrightarrow> last (trace (settle r w)) = Emit_polling_stopped"
proof -
  assume "r \<in> set (waiters w)"
  then have "count_list (waiters w) r \<noteq> 0" by (simp add: count_list_0_iff)
  then obtain k where "count_list (waiters w) r = Suc k" by (cases "count_list (waiters w) r") auto
  then show ?thesis
    by (simp add: settle_trace notified_def replicate_append_same [symmetric] del: replicate_Suc)
qed

lemma waits_respond:
  assumes "stop_waits r a n w"
  shows "stop_waits r a n (respond b r' rep w) \<or>
         (r' = r \<and> stop_done r n (respond b r' rep w) \<and>
          last (trace (respond b r' rep w)) = Emit_polling_stopped \<and>
          timers (respond b r' rep w) = timers w)"
proof (cases "in_flight r' w")
  case False
  with assms show ?thesis by (simp add: respond_not_in_flight)
next
  case True
  from assms have f: "in_flight r w" and ab: "abort (poll w)" and ws: "waiters w = [r]"
    and ac: "isPollingActive (poll w) = a" and sc: "stopped_count w = n"
    by (simp_all add: stop_waits_def)
  from f have len: "r < length (promises w)" and pen: "pending (promises w ! r)"
    by (simp_all add: in_flight_def)
  from True have len': "r' < length (promises w)" by (simp add: in_flight_def)
  from respond_shape [OF True, of b rep]
  consider (ends) w1 where "cycle_work w w1" "respond b r' rep w = settle r' w1"
    | (goes_on) w1 ph where "cycle_work w w1" "pending ph"
        "replies_left ph < replies_left (promises w ! r')" "respond b r' rep w = set_phase r' ph w1"
    by blast
  then show ?thesis
  proof cases
    case ends
    from ends(1) ab ws ac sc have w1: "promises w1 = promises w" "abort (poll w1)"
      "waiters w1 = [r]" "isPollingActive (poll w1) = a" "stopped_count w1 = n"
      "timers w1 = timers w"
      by (simp_all add: cycle_work_def)
    show ?thesis
    proof (cases "r' = r")
      case True
      have "settled r (settle r w1)"
        using len w1(1) by (intro settled_settle) simp
      moreover have "last (trace (settle r w1)) = Emit_polling_stopped"
        by (rule last_trace_settle) (simp add: w1(3))
      ultimately show ?thesis
        using True w1 ends(2)
        by (simp add: stop_done_def settle_abort settle_waiters settle_active
            stopped_count_settle settle_timers)
    next
      case False
      from False len pen w1(1) have "in_flight r (settle r' w1)"
        by (simp add: in_flight_def settle_promises)
      with False w1 show ?thesis
        by (simp add: ends(2) stop_waits_def settle_abort settle_waiters settle_active
            stopped_count_settle)
    qed
  next
    case goes_on
    from goes_on(1) ab ws ac sc have w1: "promises w1 = promises w" "abort (poll w1)"
      "waiters w1 = [r]" "isPollingActive (poll w1) = a" "stopped_count w1 = n"
      by (simp_all add: cycle_work_def)
    have "in_flight r (set_phase r' ph w1)"
      using len pen goes_on(2) w1(1)
      by (cases "r' = r") (simp_all add: in_flight_def set_phase_simps)
    with w1 show ?thesis
      by (simp add: goes_on(4) stop_waits_def set_phase_simps stopped_count_def)
  qed
qed

lemma polling_call_frame:
  "abort (poll (snd (polling_call w))) = abort (poll w)"
  "isPollingActive (poll (snd (polling_call w))) = isPollingActive (poll w)"
  "stopped_count (snd (polling_call w)) = stopped_count w"
  by (simp_all add: polling_call_simps stopped_count_def)

lemma waits_fire:
  assumes "stop_waits r a n w"
  shows "stop_waits r a n (fire h w)"
proof (cases "h \<in> fst ` set (timers w)")
  case False
  with assms show ?thesis by (simp add: fire_def)
next
  case True
  let ?w1 = "w\<lparr>timers := filter (\<lambda>t. fst t \<noteq> h) (timers w)\<rparr>"
  have s: "fire h w = snd (polling_call ?w1)" using True by (simp add: fire_def)
  from assms have "stop_waits r a n ?w1"
    by (simp add: stop_waits_def in_flight_def stopped_count_def)
  then show ?thesis
    unfolding s
    by (simp add: stop_waits_def in_flight_def polling_call_frame polling_call_simps
        nth_append)
qed

lemma done_respond:
  assumes "stop_done r n w"
  shows "stop_done r n (respond b r' rep w)"
proof (cases "in_flight r' w")
  case False
  with assms show ?thesis by (simp add: respond_not_in_flight)
next
  case True
  from assms have st: "settled r w" and ab: "\<not> abort (poll w)" and ws: "waiters w = []"
    and ac: "\<not> isPollingActive (poll w)" and sc: "stopped_count w = Suc n"
    by (simp_all add: stop_done_def)
  from st have len: "r < length (promises w)" and ph: "promises w ! r = Settled"
    by (simp_all add: settled_def)
  from True st have ne: "r' \<noteq> r"
    using settled_not_in_flight by blast
  from respond_shape [OF True, of b rep]
  consider (ends) w1 where "cycle_work w w1" "respond b r' rep w = settle r' w1"
    | (goes_on) w1 ph where "cycle_work w w1" "pending ph"
        "replies_left ph < replies_left (promises w ! r')" "respond b r' rep w = set_phase r' ph w1"
    by blast
  then show ?thesis
  proof cases
    case ends
    from ends(1) ab ws ac sc have w1: "promises w1 = promises w" "\<not> abort (poll w1)"
      "waiters w1 = []" "\<not> isPollingActive (poll w1)" "stopped_count w1 = Suc n"
      by (simp_all add: cycle_work_def)
    from ne len ph w1(1) have "settled r (settle r' w1)"
      by (simp add: settled_def settle_promises)
    with w1 show ?thesis
      by (simp add: ends(2) stop_done_def settle_abort settle_waiters settle_active
          stopped_count_settle)
  next
    case goes_on
    from goes_on(1) ab ws ac sc have w1: "promises w1 = promises w" "\<not> abort (poll w1)"
      "waiters w1 = []" "\<not> isPollingActive (poll w1)" "stopped_count w1 = Suc n"
      by (simp_all add: cycle_work_def)
    from ne len ph w1(1) have "settled r (set_phase r' ph w1)"
      by (simp add: settled_def set_phase_simps)
    with w1 show ?thesis
      by (simp add: goes_on(4) stop_done_def set_phase_simps stopped_count_def)
  qed
qed

lemma done_fire:
  assumes "stop_done r n w"
  shows "stop_done r n (fire h w)"
proof (cases "h \<in> fst ` set (timers w)")
  case False
  with assms show ?thesis by (simp add: fire_def)
next
  case True
  let ?w1 = "w\<lparr>timers := filter (\<lambda>t. fst t \<noteq> h) (timers w)\<rparr>"
  have s: "fire h w = snd (polling_call ?w1)" using True by (simp add: fire_def)
  from assms have "stop_done r n ?w1"
    by (simp add: stop_done_def settled_def stopped_count_def)
  then show ?thesis
    unfolding s
    by (simp add: stop_done_def settled_def polling_call_frame polling_call_simps nth_append)
qed

lemma done_run:
  "stop_done r n w \<Longrightarrow> list_all (\<lambda>ba. external (snd ba)) acts \<Longrightarrow>
   stop_done r n (run acts w)"
proof (induction acts arbitrary: w)
  case Nil
  then show ?case by (simp add: run_def)
next
  case (Cons ba acts)
  from Cons.prems have e: "external (snd ba)" and rest: "list_all (\<lambda>ba. external (snd ba)) acts"
    by simp_all
  from e Cons.prems(1) have "stop_done r n (step (fst ba) (snd ba) w)"
    by (cases "snd ba") (simp_all add: external_def step_def done_respond done_fire)
  from Cons.IH [OF this rest] show ?case by (simp add: run_def)
qed

lemma waits_run:
  "stop_waits r a n w \<Longrightarrow> list_all (\<lambda>ba. external (snd ba)) acts \<Longrightarrow>
   stop_waits r a n (run acts w) \<or> stop_done r n (run acts w)"
proof (induction acts arbitrary: w)
  case Nil
  then show ?case by (simp add: run_def)
next
  case (Cons ba acts)
  let ?w1 = "step (fst ba) (snd ba) w"
  from Cons.prems have e: "external (snd ba)" and rest: "list_all (\<lambda>ba. external (snd ba)) acts"
    by simp_all
  have u: "run (ba # acts) w = run acts ?w1" by (simp add: run_def)
  from e Cons.prems(1) have "stop_waits r a n ?w1 \<or> stop_done r n ?w1"
    using waits_respond [OF Cons.prems(1)] waits_fire [OF Cons.prems(1)]
    by (cases "snd ba") (auto simp: external_def step_def)
  then show ?case
  proof
    assume "stop_waits r a n ?w1"
    from Cons.IH [OF this rest] show ?thesis unfolding u .
  next
    assume "stop_done r n ?w1"
    from done_run [OF this rest] show ?thesis unfolding u by simp
  qed
qed

lemma stopping_restarted_eq:
  "stopping_restarted =
     \<lparr>poll = \<lparr>interval = 300, params = \<lparr>offset = 0, timeout = 10, limit = None\<rparr>,
              lastUpdate = 0, lastRequest = Some 1, abort = True, pollingTimeout = None,
              isPollingActive = True\<rparr>,
      promises = [Fetching, Fetching], waiters = [0], timers = [], timer_count = 0,
      trace = [Emit_polling_started, Call_getUpdates \<lparr>offset = 0, timeout = 10, limit = None\<rparr>,
               Emit_polling_restart,
               Call_getUpdates \<lparr>offset = 0, timeout = 10, limit = None\<rparr>]\<rparr>"
  by (simp add: stopping_restarted_def stopping_eq start_def with_restart_def stop_def
      polling_call_def new_promise_def getUpdates_call_def emit_def Let_def)

lemma stop_starts_waiting:
  assumes "lastRequest (poll w) = Some r" and "in_flight r w" and "waiters w = []"
    and "\<not> cancel options"
  shows "stop_waits r (isPollingActive (poll w)) (stopped_count w) (snd (stop options w))"
proof -
  from assms(2) have n: "\<not> settled r w" using settled_not_in_flight by blast
  note s = stop_graceful [OF assms(1) assms(4)]
  from assms(2) have "in_flight r (snd (stop options w))"
    by (simp add: in_flight_def s(2))
  with n assms(3) show ?thesis
    by (simp add: stop_waits_def s(3) s(4) s(5) stopped_count_def)
qed

text \<open>
  C4 (as amended). When \<^verbatim>\<open>_lastRequest\<close> holds the chain \<open>r\<close> of a cycle in flight and no
  earlier \<^verbatim>\<open>stop\<close> is still waiting for a cycle, \<^verbatim>\<open>stop\<close> with a falsy \<^verbatim>\<open>cancel\<close> option
  returns an outcome that waits for chain \<open>r\<close>, sets the abort flag, and changes neither
  the active flag nor what was notified. Under whatever the bot replies to any chain and
  whatever timers fire afterwards (\<^verbatim>\<open>start\<close> and \<^verbatim>\<open>stop\<close> not being called in the meantime),
  as long as cycle \<open>r\<close> is in flight the abort flag stays set, the active flag is unchanged
  and nothing more was notified; the reply that ends the cycle notifies the observers
  that polling stopped as its last event, sets no timer, clears the abort flag and marks
  the controller inactive; once the cycle is over the controller stays inactive with the
  abort flag cleared and exactly one notification more. Four replies to chain \<open>r\<close> end the
  cycle, and a batch that arrives for a chain waiting for its fetch is processed in full
  before the notification.
\<close>

theorem graceful_stop:
  "lastRequest (poll w) = Some r \<and> in_flight r w \<and> waiters w = [] \<and> \<not> cancel options \<and>
   list_all (\<lambda>ba. external (snd ba)) acts \<longrightarrow>
     fst (stop options w) = Settles_with r \<and>
     abort (poll (snd (stop options w))) \<and>
     isPollingActive (poll (snd (stop options w))) = isPollingActive (poll w) \<and>
     trace (snd (stop options w)) = trace w \<and>
     in_flight r (snd (stop options w)) \<and>
     (in_flight r (run acts (snd (stop options w))) \<longrightarrow>
        abort (poll (run acts (snd (stop options w)))) \<and>
        isPollingActive (poll (run acts (snd (stop options w)))) = isPollingActive (poll w) \<and>
        stopped_count (run acts (snd (stop options w))) = stopped_count w \<and>
        (settled r (respond b r rep (run acts (snd (stop options w)))) \<longrightarrow>
           last (trace (respond b r rep (run acts (snd (stop options w))))) =
             Emit_polling_stopped \<and>
           timers (respond b r rep (run acts (snd (stop options w)))) =
             timers (run acts (snd (stop options w))) \<and>
           \<not> abort (poll (respond b r rep (run acts (snd (stop options w))))) \<and>
           \<not> isPollingActive (poll (respond b r rep (run acts (snd (stop options w))))) \<and>
           stopped_count (respond b r rep (run acts (snd (stop options w)))) =
             Suc (stopped_count w))) \<and>
     (\<not> in_flight r (run acts (snd (stop options w))) \<longrightarrow>
        settled r (run acts (snd (stop options w))) \<and>
        \<not> abort (poll (run acts (snd (stop options w)))) \<and>
        \<not> isPollingActive (poll (run acts (snd (stop options w)))) \<and>
        stopped_count (run acts (snd (stop options w))) = Suc (stopped_count w)) \<and>
     settled r (replies b r [rep1, rep2, rep3, rep4] (snd (stop options w))) \<and>
     (awaits_fetch r w \<and> (\<forall>u \<in> set us. processUpdate b u = None) \<longrightarrow>
        trace (respond b r (Resolve us) (snd (stop options w))) =
          trace w @ processor_calls r us @ [Emit_polling_stopped])"
proof (rule impI)
  let ?a = "isPollingActive (poll w)"
  let ?n = "stopped_count w"
  let ?w1 = "snd (stop options w)"
  let ?w2 = "run acts ?w1"
  let ?w3 = "respond b r rep ?w2"
  assume h: "lastRequest (poll w) = Some r \<and> in_flight r w \<and> waiters w = [] \<and>
             \<not> cancel options \<and> list_all (\<lambda>ba. external (snd ba)) acts"
  then have l: "lastRequest (poll w) = Some r" and f: "in_flight r w"
    and ws: "waiters w = []" and c: "\<not> cancel options"
    and e: "list_all (\<lambda>ba. external (snd ba)) acts"
    by simp_all
  have h': "lastRequest (poll w) = Some r \<and> in_flight r w \<and> r \<notin> set (waiters w) \<and>
            \<not> cancel options"
    using l f ws c by simp
  note old = stop_then_replies [of "[]" "Boolean True" _ w r options b "[]" rep1 rep2 rep3 rep4 us,
      THEN conjunct2, THEN mp, OF h']
  note w1 = stop_starts_waiting [OF l f ws c]
  note w2 = waits_run [OF w1 e]
  have excl: "\<not> (stop_waits r ?a ?n ?w2 \<and> stop_done r ?n ?w2)"
    using settled_not_in_flight by (auto simp: stop_waits_def stop_done_def)
  have first: "fst (stop options w) = Settles_with r \<and> abort (poll ?w1) \<and>
               isPollingActive (poll ?w1) = ?a \<and> trace ?w1 = trace w \<and> in_flight r ?w1"
    using old by blast
  have flying: "in_flight r ?w2 \<longrightarrow>
        abort (poll ?w2) \<and> isPollingActive (poll ?w2) = ?a \<and> stopped_count ?w2 = ?n \<and>
        (settled r ?w3 \<longrightarrow>
           last (trace ?w3) = Emit_polling_stopped \<and> timers ?w3 = timers ?w2 \<and>
           \<not> abort (poll ?w3) \<and> \<not> isPollingActive (poll ?w3) \<and>
           stopped_count ?w3 = Suc ?n)"
  proof
    assume i: "in_flight r ?w2"
    with w2 have w: "stop_waits r ?a ?n ?w2"
      using settled_not_in_flight by (auto simp: stop_done_def)
    from waits_respond [OF w, of b r rep]
    have "settled r ?w3 \<longrightarrow>
           last (trace ?w3) = Emit_polling_stopped \<and> timers ?w3 = timers ?w2 \<and>
           \<not> abort (poll ?w3) \<and> \<not> isPollingActive (poll ?w3) \<and>
           stopped_count ?w3 = Suc ?n"
      using settled_not_in_flight by (auto simp: stop_waits_def stop_done_def)
    with w show "abort (poll ?w2) \<and> isPollingActive (poll ?w2) = ?a \<and> stopped_count ?w2 = ?n \<and>
        (settled r ?w3 \<longrightarrow>
           last (trace ?w3) = Emit_polling_stopped \<and> timers ?w3 = timers ?w2 \<and>
           \<not> abort (poll ?w3) \<and> \<not> isPollingActive (poll ?w3) \<and>
           stopped_count ?w3 = Suc ?n)"
      by (simp add: stop_waits_def)
  qed
  have over: "\<not> in_flight r ?w2 \<longrightarrow>
        settled r ?w2 \<and> \<not> abort (poll ?w2) \<and> \<not> isPollingActive (poll ?w2) \<and>
        stopped_count ?w2 = Suc ?n"
    using w2 by (auto simp: stop_waits_def stop_done_def)
  have four: "settled r (replies b r [rep1, rep2, rep3, rep4] ?w1)"
    using old by blast
  have batch: "awaits_fetch r w \<and> (\<forall>u \<in> set us. processUpdate b u = None) \<longrightarrow>
        trace (respond b r (Resolve us) ?w1) =
          trace w @ processor_calls r us @ [Emit_polling_stopped]"
    using old by (elim conjE)
  from first flying over four batch
  show "fst (stop options w) = Settles_with r \<and>
     abort (poll ?w1) \<and>
     isPollingActive (poll ?w1) = ?a \<and>
     trace ?w1 = trace w \<and>
     in_flight r ?w1 \<and>
     (in_flight r ?w2 \<longrightarrow>
        abort (poll ?w2) \<and> isPollingActive (poll ?w2) = ?a \<and> stopped_count ?w2 = ?n \<and>
        (settled r ?w3 \<longrightarrow>
           last (trace ?w3) = Emit_polling_stopped \<and> timers ?w3 = timers ?w2 \<and>
           \<not> abort (poll ?w3) \<and> \<not> isPollingActive (poll ?w3) \<and>
           stopped_count ?w3 = Suc ?n)) \<and>
     (\<not> in_flight r ?w2 \<longrightarrow>
        settled r ?w2 \<and> \<not> abort (poll ?w2) \<and> \<not> isPollingActive (poll ?w2) \<and>
        stopped_count ?w2 = Suc ?n) \<and>
     settled r (replies b r [rep1, rep2, rep3, rep4] ?w1) \<and>
     (awaits_fetch r w \<and> (\<forall>u \<in> set us. processUpdate b u = None) \<longrightarrow>
        trace (respond b r (Resolve us) ?w1) =
          trace w @ processor_calls r us @ [Emit_polling_stopped])"
    by (intro conjI) (elim conjE, assumption)+
qed

theorem graceful_stop_witness:
  "lastRequest (poll started) = Some 0 \<and> in_flight 0 started \<and> waiters started = [] \<and>
   \<not> cancel graceful \<and>
   list_all (\<lambda>ba. external (snd ba)) [(quiet_bot, Respond 0 (Reject conflict)), (quiet_bot, Fire 0)] \<and>
   list_all (\<lambda>ba. external (snd ba)) [(quiet_bot, Respond 0 (Resolve [upd 5, upd 6]))] \<and>
   awaits_fetch 0 started \<and>
   processUpdate quiet_bot (upd 5) = None \<and> processUpdate quiet_bot (upd 6) = None \<and>
   fst (stop graceful started) = Settles_with 0 \<and>
   abort (poll (snd (stop graceful started))) \<and>
   isPollingActive (poll (snd (stop graceful started))) \<and>
   in_flight 0 (snd (stop graceful started)) \<and>
   in_flight 0 (run [(quiet_bot, Respond 0 (Reject conflict)), (quiet_bot, Fire 0)]
                  (snd (stop graceful started))) \<and>
   abort (poll (run [(quiet_bot, Respond 0 (Reject conflict)), (quiet_bot, Fire 0)]
                  (snd (stop graceful started)))) \<and>
   isPollingActive (poll (run [(quiet_bot, Respond 0 (Reject conflict)), (quiet_bot, Fire 0)]
                            (snd (stop graceful started)))) \<and>
   settled 0 (respond quiet_bot 0 (Reject unreachable)
                (run [(quiet_bot, Respond 0 (Reject conflict)), (quiet_bot, Fire 0)]
                   (snd (stop graceful started)))) \<and>
   last (trace (respond quiet_bot 0 (Reject unreachable)
                  (run [(quiet_bot, Respond 0 (Reject conflict)), (quiet_bot, Fire 0)]
                     (snd (stop graceful started))))) = Emit_polling_stopped \<and>
   timers (respond quiet_bot 0 (Reject unreachable)
             (run [(quiet_bot, Respond 0 (Reject conflict)), (quiet_bot, Fire 0)]
                (snd (stop graceful started)))) = [] \<and>
   \<not> abort (poll (respond quiet_bot 0 (Reject unreachable)
                    (run [(quiet_bot, Respond 0 (Reject conflict)), (quiet_bot, Fire 0)]
                       (snd (stop graceful started))))) \<and>
   \<not> isPollingActive (poll (respond quiet_bot 0 (Reject unreachable)
                              (run [(quiet_bot, Respond 0 (Reject conflict)), (quiet_bot, Fire 0)]
                                 (snd (stop graceful started))))) \<and>
   \<not> in_flight 0 (run [(quiet_bot, Respond 0 (Resolve [upd 5, upd 6]))]
                    (snd (stop graceful started))) \<and>
   \<not> abort (poll (run [(quiet_bot, Respond 0 (Resolve [upd 5, upd 6]))]
                    (snd (stop graceful started)))) \<and>
   \<not> isPollingActive (poll (run [(quiet_bot, Respond 0 (Resolve [upd 5, upd 6]))]
                              (snd (stop graceful started)))) \<and>
   stopped_count (run [(quiet_bot, Respond 0 (Resolve [upd 5, upd 6]))]
                    (snd (stop graceful started))) = 1 \<and>
   trace (respond quiet_bot 0 (Resolve [upd 5, upd 6]) (snd (stop graceful started))) =
     trace started @
       [Call_processUpdate 0 (upd 5) 6, Call_processUpdate 0 (upd 6) 7, Emit_polling_stopped]"
proof -
  let ?w1 = "snd (stop graceful started)"
  let ?A = "[(quiet_bot, Respond 0 (Reject conflict)), (quiet_bot, Fire 0)]"
  let ?B = "[(quiet_bot, Respond 0 (Resolve [upd 5, upd 6]))]"
  let ?wa = "run ?A ?w1"
  let ?wb = "run ?B ?w1"
  let ?wc = "respond quiet_bot 0 (Reject unreachable) ?wa"
  have w1: "?w1 = stopping" by (simp add: stopping_def)
  have ha: "lastRequest (poll started) = Some 0 \<and> in_flight 0 started \<and> waiters started = [] \<and>
            \<not> cancel graceful \<and> list_all (\<lambda>ba. external (snd ba)) ?A"
    by (simp add: started_eq in_flight_def pending_def graceful_def external_def)
  have hb: "lastRequest (poll started) = Some 0 \<and> in_flight 0 started \<and> waiters started = [] \<and>
            \<not> cancel graceful \<and> list_all (\<lambda>ba. external (snd ba)) ?B"
    by (simp add: started_eq in_flight_def pending_def graceful_def external_def)
  have k: "awaits_fetch 0 started \<and> (\<forall>u \<in> set [upd 5, upd 6]. processUpdate quiet_bot u = None)"
    by (simp add: awaits_fetch_started quiet_bot_def accepting_def)
  have ea: "?wa =
      \<lparr>poll = \<lparr>interval = 300, params = \<lparr>offset = 0, timeout = 10, limit = None\<rparr>,
               lastUpdate = 0, lastRequest = None, abort = True, pollingTimeout = None,
               isPollingActive = True\<rparr>,
       promises = [Unsetting], waiters = [0], timers = [], timer_count = 0,
       trace = [Emit_polling_started, Call_getUpdates \<lparr>offset = 0, timeout = 10, limit = None\<rparr>,
                Call_setWebHook]\<rparr>"
    unfolding w1
    by (simp add: stopping_eq run_def step_def fire_def run_simps actor_simps)
  have ca: "in_flight 0 ?wa" "timers ?wa = []"
    by (simp_all add: ea in_flight_def pending_def)
  have cc: "settled 0 ?wc"
    unfolding ea by (simp add: run_simps actor_simps)
  have cb: "\<not> in_flight 0 ?wb"
    unfolding w1
    by (simp add: stopping_eq run_def step_def forEach_update.simps run_simps actor_simps)
  have c: "isPollingActive (poll started)" "stopped_count started = 0"
    "processor_calls 0 [upd 5, upd 6] =
       [Call_processUpdate 0 (upd 5) 6, Call_processUpdate 0 (upd 6) 7]"
    by (simp_all add: started_eq stopped_count_def processor_calls_def upd_def)
  note ta = graceful_stop [of started 0 graceful ?A quiet_bot "Reject unreachable"
      "Resolve []" "Resolve []" "Resolve []" "Resolve []" "[upd 5, upd 6]", THEN mp, OF ha]
  note tb = graceful_stop [of started 0 graceful ?B quiet_bot "Resolve []"
      "Resolve []" "Resolve []" "Resolve []" "Resolve []" "[upd 5, upd 6]", THEN mp, OF hb]
  from ta have g1: "fst (stop graceful started) = Settles_with 0" "abort (poll ?w1)"
    "isPollingActive (poll ?w1) = isPollingActive (poll started)" "in_flight 0 ?w1"
    by blast+
  from ta have g2: "in_flight 0 ?wa \<longrightarrow>
        abort (poll ?wa) \<and> isPollingActive (poll ?wa) = isPollingActive (poll started) \<and>
        stopped_count ?wa = stopped_count started \<and>
        (settled 0 ?wc \<longrightarrow>
           last (trace ?wc) = Emit_polling_stopped \<and> timers ?wc = timers ?wa \<and>
           \<not> abort (poll ?wc) \<and> \<not> isPollingActive (poll ?wc) \<and>
           stopped_count ?wc = Suc (stopped_count started))"
    by (elim conjE)
  from ta have g3: "awaits_fetch 0 started \<and>
      (\<forall>u \<in> set [upd 5, upd 6]. processUpdate quiet_bot u = None) \<longrightarrow>
      trace (respond quiet_bot 0 (Resolve [upd 5, upd 6]) ?w1) =
        trace started @ processor_calls 0 [upd 5, upd 6] @ [Emit_polling_stopped]"
    by (elim conjE)
  from tb have g4: "\<not> in_flight 0 ?wb \<longrightarrow>
        settled 0 ?wb \<and> \<not> abort (poll ?wb) \<and> \<not> isPollingActive (poll ?wb) \<and>
        stopped_count ?wb = Suc (stopped_count started)"
    by (elim conjE)
  from g2 [THEN mp, OF ca(1)] have g2a: "abort (poll ?wa)"
    "isPollingActive (poll ?wa) = isPollingActive (poll started)"
    and g2b: "settled 0 ?wc \<longrightarrow>
           last (trace ?wc) = Emit_polling_stopped \<and> timers ?wc = timers ?wa \<and>
           \<not> abort (poll ?wc) \<and> \<not> isPollingActive (poll ?wc) \<and>
           stopped_count ?wc = Suc (stopped_count started)"
    by blast+
  from g2b [THEN mp, OF cc] have g2c: "last (trace ?wc) = Emit_polling_stopped"
    "timers ?wc = timers ?wa" "\<not> abort (poll ?wc)" "\<not> isPollingActive (poll ?wc)"
    by blast+
  from g4 [THEN mp, OF cb] have g4': "\<not> abort (poll ?wb)" "\<not> isPollingActive (poll ?wb)"
    "stopped_count ?wb = Suc (stopped_count started)"
    by blast+
  note g3' = g3 [THEN mp, OF k]
  from ha hb k ca(1) cc cb g1 g2a g2c g4' show ?thesis
    unfolding g3' by (simp add: c ca(2))
qed

text \<open>
  C4 as stated fails in two ways. First, when a cycle is in flight but \<^verbatim>\<open>_lastRequest\<close> is
  empty, as it is after a first \<^verbatim>\<open>stop\<close> without cancel that still waits for that cycle,
  a second \<^verbatim>\<open>stop\<close> returns a resolved outcome at once and waits for nothing. Second,
  after \<^verbatim>\<open>start()\<close>, \<^verbatim>\<open>stop()\<close>, \<^verbatim>\<open>start({restart: true})\<close> two cycles are in flight, chain 0
  with the callback of the first \<^verbatim>\<open>stop\<close> and chain 1 in \<^verbatim>\<open>_lastRequest\<close>; a \<^verbatim>\<open>stop()\<close> now
  waits for chain 1, but the end of chain 0 clears the abort flag, marks the controller
  inactive and notifies that polling stopped while cycle 1 is still in flight, and cycle
  1 then ends with the abort flag cleared and sets the timer of the next cycle.
\<close>

theorem graceful_stop_overtaken:
  "in_flight 0 stopping \<and> lastRequest (poll stopping) = None \<and> \<not> cancel graceful \<and>
   stop graceful stopping = (Resolved, stopping) \<and>
   lastRequest (poll stopping_restarted) = Some 1 \<and> in_flight 1 stopping_restarted \<and>
   waiters stopping_restarted = [0] \<and>
   fst (stop graceful stopping_restarted) = Settles_with 1 \<and>
   in_flight 1 (respond quiet_bot 0 (Resolve []) (snd (stop graceful stopping_restarted))) \<and>
   \<not> abort (poll (respond quiet_bot 0 (Resolve []) (snd (stop graceful stopping_restarted)))) \<and>
   \<not> isPollingActive
       (poll (respond quiet_bot 0 (Resolve []) (snd (stop graceful stopping_restarted)))) \<and>
   last (trace (respond quiet_bot 0 (Resolve []) (snd (stop graceful stopping_restarted)))) =
     Emit_polling_stopped \<and>
   timers (respond quiet_bot 1 (Resolve [])
             (respond quiet_bot 0 (Resolve []) (snd (stop graceful stopping_restarted)))) =
     [(0, 300)]"
proof -
  have s: "stop graceful stopping = (Resolved, stopping)"
    by (simp add: stop_idle stopping_eq)
  have t: "stop graceful stopping_restarted =
      (Settles_with 1,
       \<lparr>poll = \<lparr>interval = 300, params = \<lparr>offset = 0, timeout = 10, limit = None\<rparr>,
                lastUpdate = 0, lastRequest = None, abort = True, pollingTimeout = None,
                isPollingActive = True\<rparr>,
        promises = [Fetching, Fetching], waiters = [0, 1], timers = [], timer_count = 0,
        trace = [Emit_polling_started, Call_getUpdates \<lparr>offset = 0, timeout = 10, limit = None\<rparr>,
                 Emit_polling_restart,
                 Call_getUpdates \<lparr>offset = 0, timeout = 10, limit = None\<rparr>]\<rparr>)"
    by (simp add: stopping_restarted_eq stop_def graceful_def run_simps)
  have a: "in_flight 0 stopping \<and> lastRequest (poll stopping) = None \<and> \<not> cancel graceful \<and>
      lastRequest (poll stopping_restarted) = Some 1 \<and> in_flight 1 stopping_restarted \<and>
      waiters stopping_restarted = [0]"
    by (simp add: stopping_eq stopping_restarted_eq graceful_def in_flight_def pending_def)
  show ?thesis
    unfolding s t using a
    by (simp add: forEach_update.simps run_simps actor_simps)
qed

subsection \<open>What isPolling reports\<close>

lemma start_fresh:
  "\<not> isPollingActive (poll w) \<Longrightarrow>
   start options w =
     (Settles_with (length (promises w)),
      snd (polling_call
        ((emit Emit_polling_started w)\<lparr>poll := (poll w)\<lparr>isPollingActive := True\<rparr>\<rparr>)))"
  by (simp add: start_def Let_def case_prod_beta polling_call_simps emit_def)

lemma start_restart:
  "isPollingActive (poll w) \<Longrightarrow> restart options \<Longrightarrow>
   snd (start options w) =
     snd (polling_call
       (snd (stop \<lparr>cancel = True, reason = Some ''Polling restart''\<rparr>
          (emit Emit_polling_restart w))))"
  by (simp add: start_def Let_def case_prod_beta)

lemma start_noop:
  "isPollingActive (poll w) \<Longrightarrow> \<not> restart options \<Longrightarrow> start options w = (Resolved, w)"
  by (simp add: start_def)

lemma isPolling_polling_call: "isPolling (snd (polling_call w))"
  by (simp add: isPolling_def polling_call_simps)

lemma isPolling_stop: "\<not> isPolling (snd (stop options w))"
proof (cases "lastRequest (poll w)")
  case None
  then show ?thesis by (simp add: stop_idle isPolling_def)
next
  case (Some q)
  then show ?thesis
    by (cases "cancel options")
       (simp_all add: isPolling_def stop_cancelling(4) stop_graceful(4))
qed

text \<open>
  C5 (as amended). \<^verbatim>\<open>isPolling()\<close> reports whether \<^verbatim>\<open>_lastRequest\<close> holds a chain. It is
  false for a new controller. Every launch of a cycle makes it true: \<^verbatim>\<open>start\<close> on an
  inactive controller, \<^verbatim>\<open>start\<close> with restart, a timer that fires. No reply of the bot
  changes it, so it stays true when a cycle ends and only the timer of the next cycle is
  pending. Every \<^verbatim>\<open>stop\<close> makes it false, also the one without cancel that leaves the
  cycle in flight. A \<^verbatim>\<open>start\<close> without restart on an active controller and a timer that
  is not pending leave it as it is.
\<close>

theorem isPolling_follows_the_handle:
  "\<not> isPolling (new_world setting) \<and>
   (\<not> isPollingActive (poll w) \<or> restart options \<longrightarrow> isPolling (snd (start options w))) \<and>
   (isPollingActive (poll w) \<and> \<not> restart options \<longrightarrow>
      isPolling (snd (start options w)) = isPolling w) \<and>
   (h \<in> fst ` set (timers w) \<longrightarrow> isPolling (fire h w)) \<and>
   (h \<notin> fst ` set (timers w) \<longrightarrow> isPolling (fire h w) = isPolling w) \<and>
   isPolling (respond b r rep w) = isPolling w \<and>
   \<not> isPolling (snd (stop halt w))"
proof (intro conjI impI)
  show "\<not> isPolling (new_world setting)"
    by (simp add: isPolling_def new_world_def constructor_def Let_def)
  show "isPolling (snd (start options w))" if "\<not> isPollingActive (poll w) \<or> restart options"
  proof (cases "isPollingActive (poll w)")
    case False
    then show ?thesis by (simp add: start_fresh isPolling_polling_call)
  next
    case True
    with that show ?thesis by (simp add: start_restart isPolling_polling_call)
  qed
  show "isPolling (snd (start options w)) = isPolling w"
    if "isPollingActive (poll w) \<and> \<not> restart options"
    using that by (simp add: start_noop)
  show "isPolling (fire h w)" if "h \<in> fst ` set (timers w)"
    using that by (simp add: fire_def isPolling_polling_call)
  show "isPolling (fire h w) = isPolling w" if "h \<notin> fst ` set (timers w)"
    using that by (simp add: fire_def)
  show "isPolling (respond b r rep w) = isPolling w"
    using respond_frame [of b r rep w] by (simp add: isPolling_def)
  show "\<not> isPolling (snd (stop halt w))"
    by (rule isPolling_stop)
qed

theorem isPolling_follows_the_handle_witness:
  "\<not> isPollingActive (poll (new_world (Boolean True))) \<and>
   isPolling (snd (start no_restart (new_world (Boolean True)))) \<and>
   isPolling started \<and> isPolling (respond quiet_bot 0 (Resolve []) started) \<and>
   0 \<in> fst ` set (timers between_cycles) \<and> isPolling (fire 0 between_cycles) \<and>
   \<not> isPolling (snd (stop graceful started))"
proof -
  have h: "\<not> isPollingActive (poll (new_world (Boolean True)))"
    "0 \<in> fst ` set (timers between_cycles)" "isPolling started"
    by (simp_all add: new_world_def constructor_def between_cycles_eq started_eq isPolling_def)
  note t = isPolling_follows_the_handle
  from h(1) t [of "Boolean True" "new_world (Boolean True)" no_restart]
  have a: "isPolling (snd (start no_restart (new_world (Boolean True))))" by blast
  from h(3) t [of "Boolean True" started no_restart 0 quiet_bot 0 "Resolve []" graceful]
  have b: "isPolling (respond quiet_bot 0 (Resolve []) started)"
    and c: "\<not> isPolling (snd (stop graceful started))" by blast+
  from h(2) t [of "Boolean True" between_cycles no_restart 0]
  have d: "isPolling (fire 0 between_cycles)" by blast
  from h a b c d show ?thesis by simp
qed

text \<open>
  C5 as stated fails in both directions. Between two cycles (the first cycle is over, its
  chain settled, and the timer of the next one is pending) no cycle is in flight and
  \<^verbatim>\<open>isPolling()\<close> is true. After a \<^verbatim>\<open>stop\<close> without cancel the first cycle is still in
  flight and \<^verbatim>\<open>isPolling()\<close> is false.
\<close>

theorem isPolling_between_cycles:
  "isPollingActive (poll between_cycles) \<and> promises between_cycles = [Settled] \<and>
   filter pending (promises between_cycles) = [] \<and> timers between_cycles = [(0, 300)] \<and>
   isPolling between_cycles \<and>
   in_flight 0 stopping \<and> \<not> isPolling stopping"
  by (simp add: between_cycles_eq stopping_eq isPolling_def in_flight_def pending_def)

subsection \<open>One chain\<close>

lemma filter_update_count:
  "r < length ps \<Longrightarrow>
   length (filter P (ps[r := x])) + (if P (ps ! r) then 1 else 0) =
     length (filter P ps) + (if P x then 1 else 0)"
proof (induction ps arbitrary: r)
  case Nil
  then show ?case by simp
next
  case (Cons p ps)
  show ?case
  proof (cases r)
    case 0
    then show ?thesis by simp
  next
    case (Suc r')
    with Cons.prems have "r' < length ps" by simp
    from Cons.IH [OF this] Suc show ?thesis by simp
  qed
qed

lemma chains_polling_call: "chains (snd (polling_call w)) = Suc (chains w)"
  by (simp add: chains_def polling_call_simps pending_simps)

lemma undisturbed_new_world: "undisturbed (new_world setting)"
  by (simp add: undisturbed_def chains_def new_world_def constructor_def Let_def)

lemma undisturbed_start:
  assumes "undisturbed w" and "\<not> restart options"
  shows "undisturbed (snd (start options w))"
proof (cases "isPollingActive (poll w)")
  case True
  with assms show ?thesis by (simp add: start_noop)
next
  case False
  let ?w2 = "(emit Emit_polling_started w)\<lparr>poll := (poll w)\<lparr>isPollingActive := True\<rparr>\<rparr>"
  from assms(1) False have "chains ?w2 = 0" "\<not> abort (poll ?w2)" "waiters ?w2 = []"
    by (simp_all add: undisturbed_def chains_def emit_def)
  then show ?thesis
    using False
    by (simp add: start_fresh undisturbed_def chains_polling_call polling_call_simps)
qed

lemma undisturbed_respond:
  assumes "undisturbed w"
  shows "undisturbed (respond b r rep w)"
proof (cases "in_flight r w")
  case False
  with assms show ?thesis by (simp add: respond_not_in_flight)
next
  case True
  then have len: "r < length (promises w)" and pen: "pending (promises w ! r)"
    by (simp_all add: in_flight_def)
  from assms have u: "\<not> abort (poll w)" "waiters w = []"
    "chains w = (if isPollingActive (poll w) then 1 else 0)"
    by (simp_all add: undisturbed_def)
  from respond_shape [OF True, of b rep]
  consider (ends) w1 where "cycle_work w w1" "respond b r rep w = settle r w1"
    | (goes_on) w1 ph where "cycle_work w w1" "pending ph"
        "replies_left ph < replies_left (promises w ! r)" "respond b r rep w = set_phase r ph w1"
    by blast
  then show ?thesis
  proof cases
    case ends
    from filter_update_count [OF len, of pending Settled] pen
    have "Suc (length (filter pending ((promises w)[r := Settled]))) =
        length (filter pending (promises w))"
      by (simp add: pending_simps)
    then have "chains (settle r w1) = chains w"
      using ends(1) u(1)
      by (simp add: chains_def settle_promises settle_timers cycle_work_def)
    with ends(1) u show ?thesis
      by (simp add: ends(2) undisturbed_def settle_abort settle_waiters settle_active
          cycle_work_def)
  next
    case goes_on
    from filter_update_count [OF len, of pending ph] pen goes_on(2)
    have "length (filter pending ((promises w)[r := ph])) = length (filter pending (promises w))"
      by simp
    with goes_on(1) u show ?thesis
      by (simp add: goes_on(4) undisturbed_def chains_def set_phase_simps cycle_work_def)
  qed
qed

lemma undisturbed_fire:
  assumes "undisturbed w"
  shows "undisturbed (fire h w)"
proof (cases "h \<in> fst ` set (timers w)")
  case False
  with assms show ?thesis by (simp add: fire_def)
next
  case True
  then have ne: "timers w \<noteq> []" by auto
  from assms have u: "\<not> abort (poll w)" "waiters w = []"
    "chains w = (if isPollingActive (poll w) then 1 else 0)"
    by (simp_all add: undisturbed_def)
  from ne u(3) have one: "length (timers w) = 1" and none: "filter pending (promises w) = []"
    and act: "isPollingActive (poll w)"
    by (auto simp: chains_def split: if_splits) (cases "timers w", simp_all)+
  from one obtain t where t: "timers w = [t]"
    by (cases "timers w") simp_all
  with True have "filter (\<lambda>t. fst t \<noteq> h) (timers w) = []" by simp
  with none u act show ?thesis
    using True
    by (simp add: fire_def undisturbed_def chains_polling_call polling_call_simps)
       (simp add: chains_def)
qed

lemma undisturbed_step: "undisturbed w \<Longrightarrow> plain a \<Longrightarrow> undisturbed (step b a w)"
  by (cases a)
     (simp_all add: step_def plain_def undisturbed_start undisturbed_respond undisturbed_fire)

lemma undisturbed_run:
  "undisturbed w \<Longrightarrow> list_all (\<lambda>ba. plain (snd ba)) acts \<Longrightarrow> undisturbed (run acts w)"
  by (induction acts arbitrary: w) (simp_all add: run_def undisturbed_step)

text \<open>
  What holds of C2. On a controller whose active flag is set, \<^verbatim>\<open>start\<close> with a falsy
  \<^verbatim>\<open>restart\<close> option returns a resolved outcome and the world as it was: no
  notification, no fetch, no new chain. From a new controller, under any calls of
  \<^verbatim>\<open>start\<close> without restart, replies of the bot and timers, there is exactly one chain (a
  cycle in flight or the timer of the next cycle) once the controller is active, and
  none before.
\<close>

theorem start_without_restart_is_idempotent:
  "(isPollingActive (poll w) \<and> \<not> restart options \<longrightarrow> start options w = (Resolved, w)) \<and>
   (list_all (\<lambda>ba. plain (snd ba)) acts \<longrightarrow>
      chains (run acts (new_world setting)) =
        (if isPollingActive (poll (run acts (new_world setting))) then 1 else 0))"
proof (intro conjI impI)
  assume "isPollingActive (poll w) \<and> \<not> restart options"
  then show "start options w = (Resolved, w)" by (simp add: start_noop)
next
  assume "list_all (\<lambda>ba. plain (snd ba)) acts"
  from undisturbed_run [OF undisturbed_new_world this, of setting]
  show "chains (run acts (new_world setting)) =
        (if isPollingActive (poll (run acts (new_world setting))) then 1 else 0)"
    by (simp add: undisturbed_def)
qed

theorem start_without_restart_is_idempotent_witness:
  "isPollingActive (poll started) \<and> \<not> restart no_restart \<and>
   start no_restart started = (Resolved, started) \<and>
   list_all (\<lambda>ba. plain (snd ba))
     [(quiet_bot, Start no_restart), (quiet_bot, Start no_restart),
      (quiet_bot, Respond 0 (Resolve [])), (quiet_bot, Start no_restart)] \<and>
   isPollingActive (poll (run
     [(quiet_bot, Start no_restart), (quiet_bot, Start no_restart),
      (quiet_bot, Respond 0 (Resolve [])), (quiet_bot, Start no_restart)]
     (new_world (Boolean True)))) \<and>
   chains (run
     [(quiet_bot, Start no_restart), (quiet_bot, Start no_restart),
      (quiet_bot, Respond 0 (Resolve [])), (quiet_bot, Start no_restart)]
     (new_world (Boolean True))) = 1"
proof -
  let ?acts = "[(quiet_bot, Start no_restart), (quiet_bot, Start no_restart),
      (quiet_bot, Respond 0 (Resolve [])), (quiet_bot, Start no_restart)]"
  have h: "isPollingActive (poll started) \<and> \<not> restart no_restart"
    by (simp add: started_eq no_restart_def)
  have p: "list_all (\<lambda>ba. plain (snd ba)) ?acts"
    by (simp add: plain_def no_restart_def)
  have s: "run ?acts (new_world (Boolean True)) = between_cycles"
    by (simp add: run_def step_def start_noop started_def [symmetric] h
        between_cycles_def [symmetric])
       (simp add: between_cycles_eq start_def no_restart_def)
  have a: "isPollingActive (poll between_cycles)" by (simp add: between_cycles_eq)
  note t = start_without_restart_is_idempotent [of started no_restart ?acts "Boolean True"]
  from t h have t1: "start no_restart started = (Resolved, started)" by blast
  from t p have t2: "chains (run ?acts (new_world (Boolean True))) =
        (if isPollingActive (poll (run ?acts (new_world (Boolean True)))) then 1 else 0)"
    by blast
  from h p t1 t2 show ?thesis by (simp add: s a)
qed

text \<open>
  C2 at the failing input: \<^verbatim>\<open>start()\<close>, \<^verbatim>\<open>start({restart: true})\<close>, \<^verbatim>\<open>start()\<close> on a new
  controller. The restart leaves the active flag false while its fresh chain is in
  flight: the cancelling stop cleared the flag and the restart path does not set it
  again, as the path of a first start does. The third call, without restart, is
  therefore not a no-op: it notifies that polling started and launches one more chain.
  Two cycles are then in flight on a controller whose flag is set, and a further
  \<^verbatim>\<open>start()\<close> is a no-op that leaves both running.
\<close>

theorem second_chain_after_restart:
  "\<not> isPollingActive (poll restarted) \<and> in_flight 1 restarted \<and> chains restarted = 1 \<and>
   fst (start no_restart restarted) = Settles_with 2 \<and>
   trace (snd (start no_restart restarted)) =
     trace restarted @
       [Emit_polling_started, Call_getUpdates \<lparr>offset = 0, timeout = 10, limit = None\<rparr>] \<and>
   isPollingActive (poll (snd (start no_restart restarted))) \<and>
   promises (snd (start no_restart restarted)) = [Cancelled, Fetching, Fetching] \<and>
   in_flight 1 (snd (start no_restart restarted)) \<and>
   in_flight 2 (snd (start no_restart restarted)) \<and>
   chains (snd (start no_restart restarted)) = 2 \<and>
   start no_restart (snd (start no_restart restarted)) =
     (Resolved, snd (start no_restart restarted))"
proof -
  have a: "\<not> isPollingActive (poll restarted)" by (simp add: restarted_eq)
  have s: "snd (start no_restart restarted) =
      \<lparr>poll = \<lparr>interval = 300, params = \<lparr>offset = 0, timeout = 10, limit = None\<rparr>,
              lastUpdate = 0, lastRequest = Some 2, abort = False, pollingTimeout = None,
              isPollingActive = True\<rparr>,
       promises = [Cancelled, Fetching, Fetching], waiters = [], timers = [], timer_count = 0,
       trace = trace restarted @
         [Emit_polling_started, Call_getUpdates \<lparr>offset = 0, timeout = 10, limit = None\<rparr>]\<rparr>"
    by (simp add: restarted_eq start_def polling_call_def new_promise_def getUpdates_call_def
        emit_def Let_def)
  have f: "fst (start no_restart restarted) = Settles_with 2"
    by (simp add: restarted_eq start_def polling_call_def new_promise_def getUpdates_call_def
        emit_def Let_def)
  have n: "start no_restart (snd (start no_restart restarted)) =
      (Resolved, snd (start no_restart restarted))"
    by (rule start_noop) (simp add: s, simp add: no_restart_def)
  have r: "in_flight 1 restarted" "chains restarted = 1"
    by (simp_all add: restarted_eq in_flight_def chains_def pending_def)
  from a f n r show ?thesis
    by (simp add: s in_flight_def chains_def pending_def)
qed

subsection \<open>Restart\<close>

text \<open>
  C10 (as amended). When the active flag is set and \<^verbatim>\<open>_lastRequest\<close> holds a chain,
  \<^verbatim>\<open>start\<close> with a truthy \<^verbatim>\<open>restart\<close> option notifies the restart, cancels that chain,
  notifies that polling stopped and launches a fresh chain, which becomes
  \<^verbatim>\<open>_lastRequest\<close>; the active flag is then false, since the cancelling stop cleared it
  and nothing set it again. A following \<^verbatim>\<open>start\<close>, with any options, is therefore not a
  no-op: it notifies that polling started, sets the flag and launches one more chain, so
  that two cycles are in flight.
\<close>

theorem restart_drops_the_active_flag:
  "isPollingActive (poll w) \<and> lastRequest (poll w) = Some q \<and> restart options \<longrightarrow>
     \<not> isPollingActive (poll (snd (start options w))) \<and>
     promises (snd (start options w)) =
       (if in_flight q w then (promises w)[q := Cancelled] else promises w) @ [Fetching] \<and>
     lastRequest (poll (snd (start options w))) = Some (length (promises w)) \<and>
     trace (snd (start options w)) =
       trace w @ [Emit_polling_restart, Call_cancel q ''Polling restart'',
                  Emit_polling_stopped, Call_getUpdates (params (poll w))] \<and>
     fst (start again (snd (start options w))) = Settles_with (Suc (length (promises w))) \<and>
     isPollingActive (poll (snd (start again (snd (start options w))))) \<and>
     trace (snd (start again (snd (start options w)))) =
       trace (snd (start options w)) @
         [Emit_polling_started, Call_getUpdates (params (poll w))] \<and>
     promises (snd (start again (snd (start options w)))) =
       promises (snd (start options w)) @ [Fetching] \<and>
     in_flight (length (promises w)) (snd (start again (snd (start options w)))) \<and>
     in_flight (Suc (length (promises w))) (snd (start again (snd (start options w))))"
proof (intro impI)
  assume a: "isPollingActive (poll w) \<and> lastRequest (poll w) = Some q \<and> restart options"
  then have act: "isPollingActive (poll w)" and l: "lastRequest (poll w) = Some q"
    and re: "restart options" by simp_all
  let ?w0 = "emit Emit_polling_restart w"
  let ?halt = "\<lparr>cancel = True, reason = Some ''Polling restart''\<rparr>"
  let ?w1 = "snd (stop ?halt ?w0)"
  let ?w2 = "snd (start options w)"
  let ?w3 = "snd (start again ?w2)"
  have l0: "lastRequest (poll ?w0) = Some q" and c: "cancel ?halt"
    using l by (simp_all add: emit_simps)
  note s = stop_cancelling [OF l0 c]
  have w2: "?w2 = snd (polling_call ?w1)"
    by (rule start_restart [OF act re])
  have len1: "length (promises ?w1) = length (promises w)"
    by (simp add: s(2) emit_simps)
  have p2: "promises ?w2 =
      (if in_flight q w then (promises w)[q := Cancelled] else promises w) @ [Fetching]"
    by (simp add: w2 polling_call_simps s(2) emit_simps in_flight_frame [of ?w0 w])
  have i2: "\<not> isPollingActive (poll ?w2)"
    by (simp add: w2 polling_call_simps s(4))
  have r2: "lastRequest (poll ?w2) = Some (length (promises w))"
    by (simp add: w2 polling_call_simps len1)
  have t2: "trace ?w2 =
       trace w @ [Emit_polling_restart, Call_cancel q ''Polling restart'',
                  Emit_polling_stopped, Call_getUpdates (params (poll w))]"
    by (simp add: w2 polling_call_simps s(3) s(4) emit_simps)
  have par2: "params (poll ?w2) = params (poll w)"
    by (simp add: w2 polling_call_simps s(4) emit_simps)
  have len2: "length (promises ?w2) = Suc (length (promises w))"
    by (simp add: p2)
  note f = start_fresh [OF i2, of again]
  have f3: "fst (start again ?w2) = Settles_with (Suc (length (promises w)))"
    by (simp add: f len2)
  have i3: "isPollingActive (poll ?w3)"
    by (simp add: f polling_call_simps)
  have t3: "trace ?w3 = trace ?w2 @ [Emit_polling_started, Call_getUpdates (params (poll w))]"
    by (simp add: f polling_call_simps emit_simps par2)
  have p3: "promises ?w3 = promises ?w2 @ [Fetching]"
    by (simp add: f polling_call_simps emit_simps)
  have n1: "in_flight (length (promises w)) ?w3"
    by (simp add: in_flight_def p3 p2 nth_append pending_simps)
  have n2: "in_flight (Suc (length (promises w))) ?w3"
    by (simp add: in_flight_def p3 p2 nth_append pending_simps)
  from i2 p2 r2 t2 f3 i3 t3 p3 n1 n2
  show "\<not> isPollingActive (poll ?w2) \<and>
     promises ?w2 =
       (if in_flight q w then (promises w)[q := Cancelled] else promises w) @ [Fetching] \<and>
     lastRequest (poll ?w2) = Some (length (promises w)) \<and>
     trace ?w2 =
       trace w @ [Emit_polling_restart, Call_cancel q ''Polling restart'',
                  Emit_polling_stopped, Call_getUpdates (params (poll w))] \<and>
     fst (start again ?w2) = Settles_with (Suc (length (promises w))) \<and>
     isPollingActive (poll ?w3) \<and>
     trace ?w3 = trace ?w2 @ [Emit_polling_started, Call_getUpdates (params (poll w))] \<and>
     promises ?w3 = promises ?w2 @ [Fetching] \<and>
     in_flight (length (promises w)) ?w3 \<and>
     in_flight (Suc (length (promises w))) ?w3"
    by blast
qed

theorem restart_drops_the_active_flag_witness:
  "isPollingActive (poll started) \<and> lastRequest (poll started) = Some 0 \<and>
   restart with_restart \<and>
   \<not> isPollingActive (poll restarted) \<and> promises restarted = [Cancelled, Fetching] \<and>
   trace (snd (start no_restart restarted)) =
     trace restarted @
       [Emit_polling_started, Call_getUpdates \<lparr>offset = 0, timeout = 10, limit = None\<rparr>] \<and>
   promises (snd (start no_restart restarted)) = [Cancelled, Fetching, Fetching] \<and>
   in_flight 1 (snd (start no_restart restarted)) \<and>
   in_flight 2 (snd (start no_restart restarted))"
proof -
  have h: "isPollingActive (poll started) \<and> lastRequest (poll started) = Some 0 \<and>
      restart with_restart"
    by (simp add: started_eq with_restart_def)
  have c: "length (promises started) = 1"
    "params (poll started) = \<lparr>offset = 0, timeout = 10, limit = None\<rparr>"
    "promises restarted = [Cancelled, Fetching]"
    by (simp_all add: started_eq restarted_eq)
  note t = restart_drops_the_active_flag [of started 0 with_restart no_restart, THEN mp, OF h,
      folded restarted_def]
  from t have t1: "\<not> isPollingActive (poll restarted)"
    and t2: "trace (snd (start no_restart restarted)) =
       trace restarted @ [Emit_polling_started, Call_getUpdates (params (poll started))]"
    and t3: "promises (snd (start no_restart restarted)) = promises restarted @ [Fetching]"
    and t4: "in_flight (length (promises started)) (snd (start no_restart restarted))"
    and t5: "in_flight (Suc (length (promises started))) (snd (start no_restart restarted))"
    by blast+
  from h t1 t2 t3 t4 t5 show ?thesis
    by (simp add: c numeral_2_eq_2)
qed

text \<open>
  C10 as stated fails when a \<^verbatim>\<open>stop\<close> without cancel is still waiting for the cycle in
  flight: the active flag is set but \<^verbatim>\<open>_lastRequest\<close> is empty, the cancelling stop of
  the restart returns at once, the flag stays set, and a following \<^verbatim>\<open>start\<close> is a no-op.
\<close>

theorem restart_while_stopping:
  "isPollingActive (poll stopping) \<and> lastRequest (poll stopping) = None \<and>
   isPollingActive (poll (snd (start with_restart stopping))) \<and>
   start no_restart (snd (start with_restart stopping)) =
     (Resolved, snd (start with_restart stopping))"
proof -
  have a: "isPollingActive (poll stopping)" "lastRequest (poll stopping) = None"
    by (simp_all add: stopping_eq)
  have s: "snd (start with_restart stopping) =
      snd (polling_call (emit Emit_polling_restart stopping))"
    using a by (simp add: start_restart with_restart_def stop_idle emit_simps)
  have b: "isPollingActive (poll (snd (start with_restart stopping)))"
    using a by (simp add: s polling_call_simps emit_simps)
  from a b show ?thesis
    by (simp add: start_noop no_restart_def)
qed

end
